theory Spec2Isabelle
  imports Complex_Main "HOL-Library.AList" "HOL-Library.List_Lexorder" "HOL-Library.Log_Nat"
begin

section \<open>Common data\<close>

text \<open>
  The Python exceptions that the modelled functions can raise.  Every raising
  expression of the source is a branch of the model returning \<open>Inl\<close>.
  \<open>GDP_Error\<close> is the exception of the pyomo transformations.
\<close>

datatype error = IndexError | KeyError | NameError | TypeError | GDP_Error

text \<open>
  An external-variable vector is a Python list of numbers.  The driver only ever
  builds vectors from integral values (the integer start vector plus the entries
  \<open>1.0\<close>, \<open>0.0\<close>, \<open>-1.0\<close> of the numpy direction matrix), and sums of these are
  exact, so the entries are modelled as \<open>int\<close>.

  A Python \<open>dict\<close> keeps its keys in insertion order; it is an association list.
  \<open>d[k] = v\<close> is \<open>AList.update k v d\<close> (overwrite in place, or append a new key),
  \<open>d.pop(k, None)\<close> is \<open>AList.delete k d\<close>, and \<open>d[k]\<close> is \<open>map_of d k\<close> with
  \<open>None\<close> standing for the \<open>KeyError\<close>.
\<close>

type_synonym vec = "int list"
type_synonym 'v dict = "(int \<times> 'v) list"

definition keys :: "'v dict \<Rightarrow> int list" where
  "keys d = map fst d"

section \<open>Neighborhood generator (\<open>dsda_gdp_reactor.py\<close>)\<close>

text \<open>\<open>np.eye(N)[r, c]\<close>.\<close>

definition eye :: "nat \<Rightarrow> nat \<Rightarrow> nat \<Rightarrow> int" where
  "eye N r c = (if r = c then 1 else 0)"

text \<open>\<open>np.concatenate((np.eye(num_ext), -np.eye(num_ext)), axis=1)[r, c]\<close>:
  an \<open>num_ext \<times> 2 num_ext\<close> matrix, the identity followed by its negation.\<close>

definition neighbors_matrix :: "nat \<Rightarrow> nat \<Rightarrow> nat \<Rightarrow> int" where
  "neighbors_matrix num_ext r c =
     (if c < num_ext then eye num_ext r c else - eye num_ext r (c - num_ext))"

text \<open>
  \<open>neighborhood_k_eq_2\<close>: for \<open>i\<close> in \<open>range(2 * num_ext)\<close> the key \<open>i + 1\<close> gets the
  list of \<open>neighbors[j, i]\<close> for \<open>j\<close> in \<open>range(num_ext)\<close>, that is column \<open>i\<close>.
  The keys are new at each insertion, so the dict is the list of the entries
  in loop order.
\<close>

definition neighborhood_k_eq_2 :: "nat \<Rightarrow> vec dict" where
  "neighborhood_k_eq_2 num_ext =
     map (\<lambda>i. (int i + 1, map (\<lambda>j. neighbors_matrix num_ext j i) [0..<num_ext]))
         [0..<2 * num_ext]"

text \<open>The positive unit vector of dimension \<open>n\<close> along the (zero-based)
  coordinate \<open>k\<close>, as the specification describes the directions.\<close>

definition unit_vector :: "nat \<Rightarrow> nat \<Rightarrow> vec" where
  "unit_vector n k = map (\<lambda>j. if j = k then 1 else 0) [0..<n]"

section \<open>Neighbor generation and filtering\<close>

text \<open>\<open>list(map(sum, zip(start, list(direction))))\<close>: \<open>zip\<close> stops at the
  shorter of the two lists.\<close>

definition add_direction :: "vec \<Rightarrow> vec \<Rightarrow> vec" where
  "add_direction start direction = map (\<lambda>(a, b). a + b) (zip start direction)"

text \<open>
  The inner loop of the bound check, over the coordinates \<open>j\<close>, with the counter
  \<open>checked\<close>.  The test is
  \<open>v[j] >= min_allowed[j+1] and v[j] <= max_allowed[j+1]\<close>: \<open>v[j]\<close> is read first
  (\<open>IndexError\<close>), then \<open>min_allowed[j+1]\<close> (\<open>KeyError\<close>), and \<open>max_allowed[j+1]\<close>
  only when the first comparison holds.
\<close>

fun count_checked :: "vec \<Rightarrow> (int \<rightharpoonup> int) \<Rightarrow> (int \<rightharpoonup> int) \<Rightarrow> nat list \<Rightarrow> nat \<Rightarrow> error + nat" where
  "count_checked v min_allowed max_allowed [] checked = Inr checked"
| "count_checked v min_allowed max_allowed (j # js) checked =
     (if length v \<le> j then Inl IndexError
      else case min_allowed (int j + 1) of
        None \<Rightarrow> Inl KeyError
      | Some lo \<Rightarrow>
          if lo \<le> v ! j then
            (case max_allowed (int j + 1) of
               None \<Rightarrow> Inl KeyError
             | Some hi \<Rightarrow>
                 count_checked v min_allowed max_allowed js
                   (if v ! j \<le> hi then checked + 1 else checked))
          else count_checked v min_allowed max_allowed js checked)"

text \<open>The loop \<open>for i in neighbors.keys()\<close> of the \<open>optimize\<close> branch, building
  \<open>new_neighbors\<close>.\<close>

fun filter_bounds ::
  "nat \<Rightarrow> (int \<rightharpoonup> int) \<Rightarrow> (int \<rightharpoonup> int) \<Rightarrow> vec dict \<Rightarrow> vec dict \<Rightarrow> error + vec dict" where
  "filter_bounds num_vars min_allowed max_allowed [] new_neighbors = Inr new_neighbors"
| "filter_bounds num_vars min_allowed max_allowed ((i, v) # rest) new_neighbors =
     (case count_checked v min_allowed max_allowed [0..<num_vars] 0 of
        Inl e \<Rightarrow> Inl e
      | Inr checked \<Rightarrow>
          filter_bounds num_vars min_allowed max_allowed rest
            (if checked = num_vars then AList.update i v new_neighbors else new_neighbors))"

text \<open>
  The \<open>cheating\<close> loop, over the snapshot \<open>list(temp.keys())\<close>:
  \<open>if new_neighbors[i][1] - new_neighbors[i][0] > 0: new_neighbors.pop(i, None)\<close>.
\<close>

fun cheating_filter :: "int list \<Rightarrow> vec dict \<Rightarrow> error + vec dict" where
  "cheating_filter [] new_neighbors = Inr new_neighbors"
| "cheating_filter (i # is) new_neighbors =
     (case map_of new_neighbors i of
        None \<Rightarrow> Inl KeyError
      | Some v \<Rightarrow>
          if length v < 2 then Inl IndexError
          else cheating_filter is
                 (if v ! 1 - v ! 0 > 0 then AList.delete i new_neighbors else new_neighbors))"

text \<open>The first loop of \<open>my_neighbors\<close>: \<open>neighbors[i] = start + neighborhood[i]\<close>
  for each key of the neighborhood, starting from \<open>{0: start}\<close>.\<close>

fun add_neighbors :: "vec \<Rightarrow> vec dict \<Rightarrow> vec dict \<Rightarrow> vec dict" where
  "add_neighbors start [] neighbors = neighbors"
| "add_neighbors start ((i, d) # rest) neighbors =
     add_neighbors start rest (AList.update i (add_direction start d) neighbors)"

definition my_neighbors ::
  "vec \<Rightarrow> vec dict \<Rightarrow> bool \<Rightarrow> (int \<rightharpoonup> int) \<Rightarrow> (int \<rightharpoonup> int) \<Rightarrow> bool \<Rightarrow> error + vec dict" where
  "my_neighbors start neighborhood optimize min_allowed max_allowed cheating =
     (let neighbors = add_neighbors start neighborhood [(0, start)] in
      if optimize then
        (case map_of neighbors 0 of
           None \<Rightarrow> Inl KeyError
         | Some v0 \<Rightarrow>
             (case filter_bounds (length v0) min_allowed max_allowed neighbors [] of
                Inl e \<Rightarrow> Inl e
              | Inr new_neighbors \<Rightarrow>
                  if cheating then cheating_filter (keys new_neighbors) new_neighbors
                  else Inr new_neighbors))
      else Inr neighbors)"

section \<open>Python floats\<close>

text \<open>
  A Python \<open>float\<close> is an IEEE 754 binary64 number.  The finite ones are the
  reals \<open>m * 2 ^ e\<close> with \<open>\<bar>m\<bar> < 2 ^ 53\<close> and \<open>e \<ge> -1074\<close>, and the sum of two
  floats is the exact sum rounded to the nearest float, ties going to the even
  mantissa.

  \<open>tiny\<close> is the smallest positive float, \<open>2 ^ -1074\<close>.  For a real \<open>x\<close>, the
  spacing of the floats around \<open>x\<close> is \<open>ulp x = 2 ^ b * tiny\<close>, where \<open>b\<close> is 0
  below \<open>2 ^ 53 * tiny\<close> (the subnormal numbers and the first binade of the normal
  ones) and grows by one each time \<open>\<bar>x\<bar>\<close> doubles: the integer part of
  \<open>\<bar>x\<bar> / tiny\<close> has \<open>53 + b\<close> binary digits.  \<open>fl x\<close> is the multiple of \<open>ulp x\<close>
  nearest to \<open>x\<close>.
\<close>

definition round_even :: "real \<Rightarrow> int" where
  "round_even y =
     (let n = \<lfloor>y\<rfloor>; r = y - of_int n in
      if r < 1 / 2 then n
      else if 1 / 2 < r then n + 1
      else if even n then n else n + 1)"

definition emin :: nat where
  "emin = 1074"

definition tiny :: real where
  "tiny = 1 / 2 ^ emin"

definition binade :: "real \<Rightarrow> nat" where
  "binade x = nat (bitlen \<lfloor>\<bar>x\<bar> / tiny\<rfloor> - 53)"

definition ulp :: "real \<Rightarrow> real" where
  "ulp x = 2 ^ binade x * tiny"

definition fl :: "real \<Rightarrow> real" where
  "fl x = of_int (round_even (x / ulp x)) * ulp x"

text \<open>
  The type of the floats: the values of \<open>fl\<close>.  \<open>val\<close> gives the real number that
  a float stands for, \<open>double_of\<close> the float nearest to a real (what a decimal
  literal such as \<open>0.00001\<close> denotes).  Floats are ordered by their values, and
  \<open>a + b\<close> is the rounded sum.  The infinities and NaN are not values of the
  type: the objective that the solver returns is taken to be a number.  The
  exponent is not bounded above, so that every sum of two floats is a float;
  the binary64 numbers are the floats up to \<open>max_double\<close> in absolute value, and
  adding the tolerance \<open>0.00001\<close> to one of them gives one of them.
\<close>

definition max_double :: real where
  "max_double = (2 ^ 53 - 1) * 2 ^ 971"

typedef double = "range fl"
  morphisms val Abs_double
  by blast

setup_lifting type_definition_double

lift_definition double_of :: "real \<Rightarrow> double" is fl
  by simp

instantiation double :: linorder
begin

lift_definition less_eq_double :: "double \<Rightarrow> double \<Rightarrow> bool" is "(\<le>)" .

lift_definition less_double :: "double \<Rightarrow> double \<Rightarrow> bool" is "(<)" .

instance
  by standard (transfer; auto)+

end

instantiation double :: plus
begin

lift_definition plus_double :: "double \<Rightarrow> double \<Rightarrow> double" is "\<lambda>a b. fl (a + b)"
  by simp

instance ..

end

instantiation double :: equal
begin

lift_definition equal_double :: "double \<Rightarrow> double \<Rightarrow> bool" is "(=)" .

instance
  by standard (transfer; simp)

end

section \<open>The continuous subproblem solver\<close>

text \<open>
  \<open>pe.SolverStatus\<close>, the status that \<open>fnlp_gdp\<close> returns
  (\<open>results.solver.status\<close>).
\<close>

datatype SolverStatus = ok | warning | solver_error | aborted | unknown

text \<open>
  \<open>fnlp_gdp(NT, x, provide_init, init)\<close> builds the reactor model for the vector
  \<open>x\<close> and calls the external NLP solver; it is a parameter of the development.
  The call \<open>fnlp_gdp NT x w\<close> stands for \<open>fnlp_gdp(NT, x)\<close> when \<open>w = None\<close> and for
  \<open>fnlp_gdp(NT, x, provide_init=True, init=i)\<close> when \<open>w = Some i\<close>.  The result
  \<open>(act_obj, status, new_init)\<close> gives \<open>pe.value(m.obj)\<close> of the returned model
  (a float), the solver status and the initialization dictionary.
\<close>

type_synonym 'i solver = "int \<Rightarrow> vec \<Rightarrow> 'i option \<Rightarrow> double \<times> SolverStatus \<times> 'i"

text \<open>The default \<open>tol=0.00001\<close> of \<open>evaluate_neighbors\<close> and
  \<open>move_and_evaluate\<close>.\<close>

definition tol_default :: double where
  "tol_default = double_of (1 / 100000)"

section \<open>Evaluation of the neighbors\<close>

text \<open>
  Dicts are mutable objects that the driver passes by reference: a store maps
  references to dicts, and a Python variable bound to a dict holds a reference.
\<close>

type_synonym ref = nat
type_synonym store = "ref \<Rightarrow> vec dict"

text \<open>The values \<open>(fmin, best_var, best_dir, best_init, improve)\<close> that
  \<open>evaluate_neighbors\<close> maintains and returns.\<close>

type_synonym 'i best = "double \<times> vec \<times> int \<times> 'i \<times> bool"

text \<open>
  The loop \<open>for i in temp.keys()\<close> of \<open>evaluate_neighbors\<close>.  The vector solved
  is read through \<open>temp\<close>, the new best vector through \<open>ext_vars\<close>.  The second
  component of the accumulator is not in the source: it records the vectors passed
  to \<open>fnlp_gdp\<close>, in call order.
\<close>

fun scan_neighbors ::
  "'i solver \<Rightarrow> int \<Rightarrow> store \<Rightarrow> ref \<Rightarrow> ref \<Rightarrow> 'i \<Rightarrow> double \<Rightarrow> int list \<Rightarrow>
     'i best \<times> vec list \<Rightarrow> error + ('i best \<times> vec list)" where
  "scan_neighbors fnlp_gdp NT h ext_vars temp init tol [] acc = Inr acc"
| "scan_neighbors fnlp_gdp NT h ext_vars temp init tol (i # is)
      ((fmin, best_var, best_dir, best_init, improve), calls) =
     (case map_of (h temp) i of
        None \<Rightarrow> Inl KeyError
      | Some x \<Rightarrow>
          (case fnlp_gdp NT x (Some init) of
             (act_obj, status, new_init) \<Rightarrow>
               if status = ok then
                 if act_obj + tol < fmin then
                   (case map_of (h ext_vars) i of
                      None \<Rightarrow> Inl KeyError
                    | Some v \<Rightarrow>
                        scan_neighbors fnlp_gdp NT h ext_vars temp init tol is
                          ((act_obj, v, i, new_init, True), calls @ [x]))
                 else scan_neighbors fnlp_gdp NT h ext_vars temp init tol is
                        ((fmin, best_var, best_dir, best_init, improve), calls @ [x])
               else scan_neighbors fnlp_gdp NT h ext_vars temp init tol is
                      ((fmin, best_var, best_dir, best_init, improve), calls @ [x])))"

text \<open>
  \<open>evaluate_neighbors(ext_vars, init, fmin, tol)\<close>.  \<open>best_var = ext_vars[0]\<close> is
  read first; \<open>temp = ext_vars\<close> binds a second name to the same reference, and
  \<open>temp.pop(0, None)\<close> updates the dict stored there.  The result carries the
  store after the call, the returned tuple and the recorded solver calls.
\<close>

definition evaluate_neighbors ::
  "'i solver \<Rightarrow> int \<Rightarrow> store \<Rightarrow> ref \<Rightarrow> 'i \<Rightarrow> double \<Rightarrow> double \<Rightarrow>
     error + (store \<times> 'i best \<times> vec list)" where
  "evaluate_neighbors fnlp_gdp NT h ext_vars init fmin tol =
     (case map_of (h ext_vars) 0 of
        None \<Rightarrow> Inl KeyError
      | Some best_var \<Rightarrow>
          (let temp = ext_vars;
               h' = h(temp := AList.delete 0 (h temp))
           in case scan_neighbors fnlp_gdp NT h' ext_vars temp init tol (keys (h' temp))
                     ((fmin, best_var, 0, init, False), []) of
                Inl e \<Rightarrow> Inl e
              | Inr (res, calls) \<Rightarrow> Inr (h', res, calls)))"

section \<open>One line-search step\<close>

text \<open>
  \<open>move_and_evaluate(start, init, fmin, direction, optimize, min_allowed,
  max_allowed, tol)\<close>, returning \<open>(fmin, best_var, moved, best_init)\<close> and, as a
  second component that is not in the source, the vectors passed to \<open>fnlp_gdp\<close>.
  Without \<open>optimize\<close> the source compares \<open>act_obj < fmin\<close>, with no tolerance.
\<close>

definition move_and_evaluate ::
  "'i solver \<Rightarrow> int \<Rightarrow> vec \<Rightarrow> 'i \<Rightarrow> double \<Rightarrow> vec \<Rightarrow> bool \<Rightarrow> (int \<rightharpoonup> int) \<Rightarrow> (int \<rightharpoonup> int) \<Rightarrow> double \<Rightarrow>
     error + ((double \<times> vec \<times> bool \<times> 'i) \<times> vec list)" where
  "move_and_evaluate fnlp_gdp NT start init fmin direction optimize min_allowed max_allowed tol =
     (let moved_point = add_direction start direction in
      if optimize then
        (case count_checked moved_point min_allowed max_allowed [0..<length moved_point] 0 of
           Inl e \<Rightarrow> Inl e
         | Inr checked \<Rightarrow>
             if checked = length moved_point then
               (case fnlp_gdp NT moved_point (Some init) of
                  (act_obj, status, new_init) \<Rightarrow>
                    if status = ok then
                      if act_obj + tol < fmin
                      then Inr ((act_obj, moved_point, True, new_init), [moved_point])
                      else Inr ((fmin, start, False, init), [moved_point])
                    else Inr ((fmin, start, False, init), [moved_point]))
             else Inr ((fmin, start, False, init), []))
      else
        (case fnlp_gdp NT moved_point (Some init) of
           (act_obj, status, new_init) \<Rightarrow>
             if status = ok then
               if act_obj < fmin
               then Inr ((act_obj, moved_point, True, new_init), [moved_point])
               else Inr ((fmin, start, False, init), [moved_point])
             else Inr ((fmin, start, False, init), [moved_point])))"

section \<open>The DSDA driver\<close>

text \<open>
  The driver \<open>dsda(NT, k)\<close> is two nested \<open>while\<close> loops.  Its state holds the
  local variables of \<open>dsda\<close>; \<open>st_phase\<close> says where control is: at the head of
  the outer loop \<open>while go_1\<close> (\<open>EXPLORE\<close>), at the head of the inner loop
  \<open>while go_2\<close> (\<open>LINE_SEARCH\<close>), or after the outer loop (\<open>DONE\<close>).

  \<open>st_neighborhood\<close> is \<open>None\<close> when \<open>k\<close> is not \<open>'2'\<close> and the variable
  \<open>neighborhood\<close> was never bound.  \<open>st_neighbors\<close> is the reference held by the
  variable \<open>neighbors\<close>, \<open>st_next_ref\<close> the next unused reference of the store.

  Two fields are not variables of the source and are never read by the driver:
  \<open>solver_log\<close> records every vector passed to \<open>fnlp_gdp\<close> inside the loops, in
  call order, and \<open>fmin_log\<close> records the value of \<open>fmin\<close> at each
  \<open>route.append\<close>.
\<close>

datatype phase = EXPLORE | LINE_SEARCH | DONE

record 'i dsda_state =
  st_route :: "vec list"
  st_ext_var :: vec
  st_init :: 'i
  st_fmin :: double
  st_neighborhood :: "vec dict option"
  st_store :: store
  st_neighbors :: ref
  st_next_ref :: ref
  st_best_var :: vec
  st_best_dir :: int
  st_best_init :: 'i
  st_phase :: phase
  solver_log :: "vec list"
  fmin_log :: "double list"

text \<open>The literal bounds that \<open>dsda\<close> passes to \<open>my_neighbors\<close> and to
  \<open>move_and_evaluate\<close>: \<open>min_allowed={1:1, 2:1}\<close>, \<open>max_allowed={1:5, 2:5}\<close>.\<close>

definition dsda_min_allowed :: "int \<rightharpoonup> int" where
  "dsda_min_allowed = [1 \<mapsto> 1, 2 \<mapsto> 1]"

definition dsda_max_allowed :: "int \<rightharpoonup> int" where
  "dsda_max_allowed = [1 \<mapsto> 5, 2 \<mapsto> 5]"

text \<open>
  The statements of \<open>dsda\<close> before the outer loop.  \<open>external_init\<close> solves a
  small feasibility model with the external solver and is a parameter.  The
  variables \<open>neighbors\<close>, \<open>best_var\<close>, \<open>best_dir\<close>, \<open>best_init\<close> are not bound yet;
  their fields hold placeholders that no step reads before writing them.
\<close>

definition dsda_init :: "'i solver \<Rightarrow> (int \<Rightarrow> vec) \<Rightarrow> int \<Rightarrow> string \<Rightarrow> 'i dsda_state" where
  "dsda_init fnlp_gdp external_init NT k =
     (let ext_var = external_init NT in
      case fnlp_gdp NT ext_var None of
        (obj, _, init) \<Rightarrow>
          \<lparr> st_route = [ext_var],
            st_ext_var = ext_var,
            st_init = init,
            st_fmin = obj,
            st_neighborhood =
              (if k = ''2'' then Some (neighborhood_k_eq_2 (length ext_var)) else None),
            st_store = (\<lambda>_. []),
            st_neighbors = 0,
            st_next_ref = 0,
            st_best_var = ext_var,
            st_best_dir = 0,
            st_best_init = init,
            st_phase = EXPLORE,
            solver_log = [],
            fmin_log = [obj] \<rparr>)"

text \<open>
  One pass of the outer loop up to the test \<open>if improve == True\<close>: the dict
  returned by \<open>my_neighbors\<close> is a new object, \<open>evaluate_neighbors\<close> receives its
  reference.  \<open>NT_global\<close> is the module-level \<open>NT\<close> that \<open>evaluate_neighbors\<close> and
  \<open>move_and_evaluate\<close> read (they have no parameter \<open>NT\<close>).
\<close>

definition explore_step :: "'i solver \<Rightarrow> int \<Rightarrow> 'i dsda_state \<Rightarrow> error + 'i dsda_state" where
  "explore_step fnlp_gdp NT_global s =
     (case st_neighborhood s of
        None \<Rightarrow> Inl NameError
      | Some neighborhood \<Rightarrow>
          (case my_neighbors (st_ext_var s) neighborhood True
                  dsda_min_allowed dsda_max_allowed True of
             Inl e \<Rightarrow> Inl e
           | Inr new_neighbors \<Rightarrow>
               (let neighbors = st_next_ref s;
                    h = (st_store s)(neighbors := new_neighbors)
                in case evaluate_neighbors fnlp_gdp NT_global h neighbors
                          (st_init s) (st_fmin s) tol_default of
                     Inl e \<Rightarrow> Inl e
                   | Inr (h', (fmin, best_var, best_dir, best_init, improve), calls) \<Rightarrow>
                       (let s' = s\<lparr> st_store := h',
                                    st_neighbors := neighbors,
                                    st_next_ref := Suc neighbors,
                                    st_fmin := fmin,
                                    st_best_var := best_var,
                                    st_best_dir := best_dir,
                                    st_best_init := best_init,
                                    solver_log := solver_log s @ calls \<rparr>
                        in if improve
                           then Inr (s'\<lparr> st_route := st_route s @ [best_var],
                                         fmin_log := fmin_log s @ [fmin],
                                         st_phase := LINE_SEARCH \<rparr>)
                           else Inr (s'\<lparr> st_phase := DONE \<rparr>)))))"

text \<open>One pass of the inner loop \<open>while go_2\<close>.\<close>

definition line_search_step :: "'i solver \<Rightarrow> int \<Rightarrow> 'i dsda_state \<Rightarrow> error + 'i dsda_state" where
  "line_search_step fnlp_gdp NT_global s =
     (case st_neighborhood s of
        None \<Rightarrow> Inl NameError
      | Some neighborhood \<Rightarrow>
          (case map_of neighborhood (st_best_dir s) of
             None \<Rightarrow> Inl KeyError
           | Some direction \<Rightarrow>
               (case move_and_evaluate fnlp_gdp NT_global (st_best_var s) (st_best_init s)
                       (st_fmin s) direction True dsda_min_allowed dsda_max_allowed
                       tol_default of
                  Inl e \<Rightarrow> Inl e
                | Inr ((fmin, best_var, moved, best_init), calls) \<Rightarrow>
                    (let s' = s\<lparr> st_fmin := fmin,
                                 st_best_var := best_var,
                                 st_best_init := best_init,
                                 solver_log := solver_log s @ calls \<rparr>
                     in if moved
                        then Inr (s'\<lparr> st_route := st_route s @ [best_var],
                                      fmin_log := fmin_log s @ [fmin] \<rparr>)
                        else Inr (s'\<lparr> st_ext_var := best_var,
                                      st_phase := EXPLORE \<rparr>)))))"

definition dsda_step :: "'i solver \<Rightarrow> int \<Rightarrow> 'i dsda_state \<Rightarrow> error + 'i dsda_state" where
  "dsda_step fnlp_gdp NT_global s =
     (case st_phase s of
        EXPLORE \<Rightarrow> explore_step fnlp_gdp NT_global s
      | LINE_SEARCH \<Rightarrow> line_search_step fnlp_gdp NT_global s
      | DONE \<Rightarrow> Inr s)"

text \<open>The state after \<open>n\<close> passes through a loop head (or the exception raised
  on the way).\<close>

fun dsda_steps :: "'i solver \<Rightarrow> int \<Rightarrow> nat \<Rightarrow> 'i dsda_state \<Rightarrow> error + 'i dsda_state" where
  "dsda_steps fnlp_gdp NT_global 0 s = Inr s"
| "dsda_steps fnlp_gdp NT_global (Suc n) s =
     (case dsda_step fnlp_gdp NT_global s of
        Inl e \<Rightarrow> Inl e
      | Inr s' \<Rightarrow> dsda_steps fnlp_gdp NT_global n s')"

text \<open>
  The loops run until \<open>go_1\<close> is false; nothing in the source bounds their
  number of passes, so the run is a partial function: \<open>None\<close> is a run that
  never leaves the loops.  \<open>dsda\<close> prints the route; the model returns it.
\<close>

partial_function (option) dsda_loop ::
  "'i solver \<Rightarrow> int \<Rightarrow> 'i dsda_state \<Rightarrow> (error + vec list) option" where
  "dsda_loop fnlp_gdp NT_global s =
     (if st_phase s = DONE then Some (Inr (st_route s))
      else case dsda_step fnlp_gdp NT_global s of
             Inl e \<Rightarrow> Some (Inl e)
           | Inr s' \<Rightarrow> dsda_loop fnlp_gdp NT_global s')"

definition dsda ::
  "'i solver \<Rightarrow> (int \<Rightarrow> vec) \<Rightarrow> int \<Rightarrow> int \<Rightarrow> string \<Rightarrow> (error + vec list) option" where
  "dsda fnlp_gdp external_init NT_global NT k =
     dsda_loop fnlp_gdp NT_global (dsda_init fnlp_gdp external_init NT k)"

section \<open>Notions used in the statements\<close>

text \<open>Coordinate \<open>p\<close> (zero-based) of a vector has declared bounds under the
  key \<open>p + 1\<close> and lies between them; a vector is inside the box when every
  coordinate does.\<close>

definition coord_ok :: "(int \<rightharpoonup> int) \<Rightarrow> (int \<rightharpoonup> int) \<Rightarrow> vec \<Rightarrow> nat \<Rightarrow> bool" where
  "coord_ok min_allowed max_allowed v p =
     (case (min_allowed (int p + 1), max_allowed (int p + 1)) of
        (Some lo, Some hi) \<Rightarrow> lo \<le> v ! p \<and> v ! p \<le> hi
      | _ \<Rightarrow> False)"

definition in_box :: "(int \<rightharpoonup> int) \<Rightarrow> (int \<rightharpoonup> int) \<Rightarrow> vec \<Rightarrow> bool" where
  "in_box min_allowed max_allowed v = list_all (coord_ok min_allowed max_allowed v) [0..<length v]"

text \<open>What the solver returns for the vector \<open>x\<close> when it is started from the
  initialization \<open>init\<close>: objective value, status and new initialization.\<close>

definition solved_obj :: "'i solver \<Rightarrow> int \<Rightarrow> 'i \<Rightarrow> vec \<Rightarrow> double" where
  "solved_obj f NT init x = fst (f NT x (Some init))"

definition solved_status :: "'i solver \<Rightarrow> int \<Rightarrow> 'i \<Rightarrow> vec \<Rightarrow> SolverStatus" where
  "solved_status f NT init x = fst (snd (f NT x (Some init)))"

definition solved_init :: "'i solver \<Rightarrow> int \<Rightarrow> 'i \<Rightarrow> vec \<Rightarrow> 'i" where
  "solved_init f NT init x = snd (snd (f NT x (Some init)))"

text \<open>The body of the loop of \<open>evaluate_neighbors\<close> as a function of the
  dict entry \<open>(i, x)\<close>; \<open>scan_neighbors\<close> is shown below to fold it over the
  entries.\<close>

definition scan_step :: "'i solver \<Rightarrow> int \<Rightarrow> 'i \<Rightarrow> double \<Rightarrow> 'i best \<Rightarrow> int \<times> vec \<Rightarrow> 'i best" where
  "scan_step fnlp_gdp NT init tol acc e =
     (case acc of (fmin, best_var, best_dir, best_init, improve) \<Rightarrow>
      case fnlp_gdp NT (snd e) (Some init) of (act_obj, status, new_init) \<Rightarrow>
        if status = ok \<and> act_obj + tol < fmin then (act_obj, snd e, fst e, new_init, True)
        else (fmin, best_var, best_dir, best_init, improve))"

text \<open>
  What the scan has established after the entries \<open>ps\<close>, from the incoming
  \<open>fmin0\<close> and incumbent \<open>v0\<close>: without an improvement nothing has changed and
  no solved entry beats \<open>fmin0\<close> by more than \<open>tol\<close>; with an improvement the
  best entry \<open>(bd, bv)\<close> occurs in \<open>ps\<close>, every solved entry before it has a
  strictly larger objective and every solved entry after it does not beat it by
  more than \<open>tol\<close>.
\<close>

definition scan_inv ::
  "'i solver \<Rightarrow> int \<Rightarrow> 'i \<Rightarrow> double \<Rightarrow> double \<Rightarrow> vec \<Rightarrow> (int \<times> vec) list \<Rightarrow> 'i best \<Rightarrow> bool" where
  "scan_inv f NT init tol fmin0 v0 ps acc =
     (case acc of (fm, bv, bd, bi, imp) \<Rightarrow>
        (\<not> imp \<longrightarrow> fm = fmin0 \<and> bv = v0 \<and> bd = 0 \<and> bi = init \<and>
            (\<forall>e \<in> set ps. solved_status f NT init (snd e) = ok \<longrightarrow>
               fmin0 \<le> solved_obj f NT init (snd e) + tol)) \<and>
        (imp \<longrightarrow> (\<exists>pre post. ps = pre @ (bd, bv) # post \<and>
            solved_status f NT init bv = ok \<and> solved_obj f NT init bv = fm \<and>
            solved_init f NT init bv = bi \<and> fm + tol < fmin0 \<and>
            (\<forall>e \<in> set pre. solved_status f NT init (snd e) = ok \<longrightarrow>
               fm < solved_obj f NT init (snd e)) \<and>
            (\<forall>e \<in> set post. solved_status f NT init (snd e) = ok \<longrightarrow>
               fm \<le> solved_obj f NT init (snd e) + tol))))"

text \<open>An entry passes the bound check of \<open>my_neighbors\<close> for \<open>n\<close> coordinates;
  an entry whose key is among \<open>ks\<close> is kept by the asymmetry filter.\<close>

definition passes :: "nat \<Rightarrow> (int \<rightharpoonup> int) \<Rightarrow> (int \<rightharpoonup> int) \<Rightarrow> int \<times> vec \<Rightarrow> bool" where
  "passes n mn mx e = (count_checked (snd e) mn mx [0..<n] 0 = Inr n)"

definition not_above :: "int list \<Rightarrow> int \<times> vec \<Rightarrow> bool" where
  "not_above ks e = (fst e \<in> set ks \<longrightarrow> \<not> (snd e ! 1 - snd e ! 0 > 0))"

text \<open>
  What holds at every loop head of a run whose start vector has \<open>m\<close>
  coordinates: the neighborhood, once bound, is the k=2 neighborhood of dimension
  \<open>m\<close>; every vector passed to the solver in the loops so far is inside the box;
  during the line search the current point is inside the box, it has at least
  two coordinates and the direction is one of the neighborhood; the recorded values of \<open>fmin\<close> decrease by more than
  the tolerance from one route entry to the next and end with the current
  \<open>fmin\<close>.
\<close>

definition dsda_inv :: "nat \<Rightarrow> 'i dsda_state \<Rightarrow> bool" where
  "dsda_inv m s \<longleftrightarrow>
     (st_neighborhood s = None \<or> st_neighborhood s = Some (neighborhood_k_eq_2 m)) \<and>
     length (st_ext_var s) = m \<and>
     (\<forall>v \<in> set (solver_log s). in_box dsda_min_allowed dsda_max_allowed v) \<and>
     (st_phase s = LINE_SEARCH \<longrightarrow>
        in_box dsda_min_allowed dsda_max_allowed (st_best_var s) \<and>
        length (st_best_var s) = m \<and> 2 \<le> m \<and>
        st_best_dir s \<in> fst ` set (neighborhood_k_eq_2 m) \<and>
        st_neighborhood s = Some (neighborhood_k_eq_2 m)) \<and>
     fmin_log s \<noteq> [] \<and> last (fmin_log s) = st_fmin s \<and>
     sorted_wrt (\<lambda>a b. b + tol_default < a) (fmin_log s) \<and>
     length (fmin_log s) = length (st_route s)"

section \<open>The reformulation engine (\<open>reformulation_functions.py\<close>)\<close>

text \<open>
  The index of a Boolean variable inside its indexed component (\<open>x.index()\<close>):
  a scalar for a component indexed by one set, a tuple otherwise.  Index values
  are taken to be integers.
\<close>

datatype index = Scalar int | Tuple "int list"

text \<open>\<open>x.index()[j]\<close>: a scalar cannot be subscripted (\<open>TypeError\<close>), a tuple
  raises \<open>IndexError\<close> out of range.\<close>

definition subscript :: "index \<Rightarrow> nat \<Rightarrow> error + int" where
  "subscript ix j =
     (case ix of
        Scalar _ \<Rightarrow> Inl TypeError
      | Tuple t \<Rightarrow> if j < length t then Inr (t ! j) else Inl IndexError)"

text \<open>
  Python orders integers as usual and tuples lexicographically; the key below
  maps both into lists under the lexicographic order.  Comparing a scalar with a
  tuple raises \<open>TypeError\<close>, see \<open>sort_by_index\<close>.
\<close>

definition index_key :: "index \<Rightarrow> int list" where
  "index_key ix = (case ix of Scalar i \<Rightarrow> [i] | Tuple t \<Rightarrow> t)"

definition is_scalar :: "index \<Rightarrow> bool" where
  "is_scalar ix = (case ix of Scalar _ \<Rightarrow> True | Tuple _ \<Rightarrow> False)"

text \<open>
  A Boolean variable of the model (a \<open>BooleanVarData\<close>): \<open>var_id\<close> is the identity
  of the object, \<open>var_name\<close> its \<open>name\<close>, \<open>var_component\<close> the name of its parent
  component (\<open>_component()._name\<close>), \<open>var_index\<close> its \<open>index()\<close>.  Whether a
  variable is fixed, and to which value, is the state of the model: \<open>None\<close> is a
  variable that is not fixed, \<open>Some b\<close> one that \<open>fix(b)\<close> has fixed.
\<close>

record BooleanVar =
  var_id :: nat
  var_name :: string
  var_component :: string
  var_index :: index


text \<open>The index set of a Boolean component: a product of named sets (it has
  the attribute \<open>_sets\<close>), or a single named set.  Both have a \<open>name\<close>.\<close>

datatype index_set = SetProduct string "string list" | SimpleSet string

definition index_set_name :: "index_set \<Rightarrow> string" where
  "index_set_name s = (case s of SetProduct n _ \<Rightarrow> n | SimpleSet n \<Rightarrow> n)"

record component =
  comp_name :: string
  comp_index_set :: index_set

text \<open>A logical constraint: the name of its body, and the arguments of the
  body, \<open>args[0]\<close> and \<open>args[1:]\<close>.\<close>

record LogicalConstraint =
  body_name :: string
  body_number :: nat
  body_vars :: "BooleanVar list"

text \<open>An entry of \<open>reformulation_dict\<close>; the fields are the keys of the inner
  dict.\<close>

record entry =
  exactly_number :: nat
  Boolean_vars :: "BooleanVar list"
  Boolean_vars_names :: "string list"
  Boolean_vars_ordered_index :: "index list"
  Ext_var_lower_bound :: int
  Ext_var_upper_bound :: int

text \<open>
  The \<open>try\<close> block: the positions of the sets of \<open>i.index_set()._sets\<close> whose name
  is, and is not, the name of the reference set.  A component whose index set
  has no \<open>_sets\<close> raises, and the \<open>except\<close> block recomputes the roles of every
  component from the name of its whole index set.
\<close>

definition try_roles :: "component \<Rightarrow> string \<Rightarrow> (nat list \<times> nat list) option" where
  "try_roles i ref =
     (case comp_index_set i of
        SimpleSet _ \<Rightarrow> None
      | SetProduct _ sets \<Rightarrow>
          Some (filter (\<lambda>p. sets ! p = ref) [0..<length sets],
                filter (\<lambda>p. sets ! p \<noteq> ref) [0..<length sets]))"

definition except_roles :: "component \<Rightarrow> string \<Rightarrow> nat list \<times> nat list" where
  "except_roles i ref =
     (if index_set_name (comp_index_set i) = ref then ([0], []) else ([], [0]))"

definition index_roles :: "(component \<times> string) list \<Rightarrow> (component \<times> nat list \<times> nat list) list" where
  "index_roles Ext_Ref =
     (case those (map (\<lambda>(i, ref). map_option (Pair i) (try_roles i ref)) Ext_Ref) of
        Some roles \<Rightarrow> roles
      | None \<Rightarrow> map (\<lambda>(i, ref). (i, except_roles i ref)) Ext_Ref)"

text \<open>Evaluating a list of expressions in order, stopping at the first that
  raises.\<close>

fun all_or_error :: "(error + 'a) list \<Rightarrow> error + 'a list" where
  "all_or_error [] = Inr []"
| "all_or_error (r # rs) =
     (case r of
        Inl e \<Rightarrow> Inl e
      | Inr v \<Rightarrow> (case all_or_error rs of Inl e \<Rightarrow> Inl e | Inr vs \<Rightarrow> Inr (v # vs)))"

text \<open>
  The loop \<open>for j in index_of_other_sets\<close>: for each other dimension the list of
  the arguments' index values on it is built, then compared with the first
  argument's; the result is \<open>verification_Other_Sets_listOFlists\<close>.
\<close>

fun verify_other_sets :: "BooleanVar list \<Rightarrow> nat list \<Rightarrow> error + bool list" where
  "verify_other_sets args [] = Inr []"
| "verify_other_sets args (j # js) =
     (case all_or_error (map (\<lambda>a. subscript (var_index a) j) args) of
        Inl e \<Rightarrow> Inl e
      | Inr vals \<Rightarrow>
          (case verify_other_sets args js of
             Inl e \<Rightarrow> Inl e
           | Inr bs \<Rightarrow> Inr (list_all (\<lambda>v. v = hd vals) vals # bs)))"

text \<open>
  \<open>sorted(args, key=lambda x: x.index()[expected_ordered_set_index[0]])\<close>: the
  keys of all arguments are computed first, in order; \<open>expected_ordered_set_index[0]\<close>
  raises \<open>IndexError\<close> when no dimension is the reference set.  \<open>sorted\<close> is
  stable, as \<open>sort_key\<close> is.  The result pairs each argument with its key.
\<close>

definition sort_by_ref_index :: "BooleanVar list \<Rightarrow> nat list \<Rightarrow> error + (int \<times> BooleanVar) list" where
  "sort_by_ref_index args expected_ordered_set_index =
     (case all_or_error
             (map (\<lambda>a. case expected_ordered_set_index of
                          [] \<Rightarrow> Inl IndexError
                        | r # _ \<Rightarrow> subscript (var_index a) r) args) of
        Inl e \<Rightarrow> Inl e
      | Inr ks \<Rightarrow> Inr (sort_key fst (zip ks args)))"

text \<open>
  \<open>sorted(args, key=lambda x: x.index())\<close>.  Sorting two or more arguments of
  which some have a scalar and some a tuple index compares a scalar with a
  tuple, which raises \<open>TypeError\<close>.
\<close>

definition sort_by_index :: "BooleanVar list \<Rightarrow> error + BooleanVar list" where
  "sort_by_index args =
     (if list_all (\<lambda>a. is_scalar (var_index a)) args \<or>
         list_all (\<lambda>a. \<not> is_scalar (var_index a)) args
      then Inr (sort_key (\<lambda>a. index_key (var_index a)) args)
      else Inl TypeError)"

text \<open>
  The body of the loop \<open>for possible_Boolean in Ext_Ref\<close> for one \<open>exactly\<close>
  constraint: \<open>None\<close> when no entry is added, otherwise the new entry.
\<close>

definition scan_family ::
  "LogicalConstraint \<Rightarrow> component \<times> nat list \<times> nat list \<Rightarrow> error + entry option" where
  "scan_family c role =
     (case role of (possible_Boolean, expected_ordered_set_index, index_of_other_sets) \<Rightarrow>
        if list_all (\<lambda>a. var_component a = comp_name possible_Boolean) (body_vars c) then
          if length index_of_other_sets \<ge> 1 then
            (case verify_other_sets (body_vars c) index_of_other_sets of
               Inl e \<Rightarrow> Inl e
             | Inr verification \<Rightarrow>
                 if list_all (\<lambda>b. b) verification then
                   (case sort_by_ref_index (body_vars c) expected_ordered_set_index of
                      Inl e \<Rightarrow> Inl e
                    | Inr sorted_args \<Rightarrow>
                        Inr (Some \<lparr> exactly_number = body_number c,
                                     Boolean_vars = map snd sorted_args,
                                     Boolean_vars_names = map (var_name \<circ> snd) sorted_args,
                                     Boolean_vars_ordered_index = map (Scalar \<circ> fst) sorted_args,
                                     Ext_var_lower_bound = 1,
                                     Ext_var_upper_bound = int (length sorted_args) \<rparr>))
                 else Inr None)
          else
            (case sort_by_index (body_vars c) of
               Inl e \<Rightarrow> Inl e
             | Inr sorted_args \<Rightarrow>
                 Inr (Some \<lparr> exactly_number = body_number c,
                              Boolean_vars = sorted_args,
                              Boolean_vars_names = map var_name sorted_args,
                              Boolean_vars_ordered_index = map var_index sorted_args,
                              Ext_var_lower_bound = 1,
                              Ext_var_upper_bound = int (length sorted_args) \<rparr>))
        else Inr None)"

text \<open>The two nested loops over the constraints and over \<open>Ext_Ref\<close>, with the
  dict built so far and the counter \<open>count\<close>.\<close>

fun scan_families ::
  "LogicalConstraint \<Rightarrow> (component \<times> nat list \<times> nat list) list \<Rightarrow>
     entry dict \<times> int \<Rightarrow> error + (entry dict \<times> int)" where
  "scan_families c [] acc = Inr acc"
| "scan_families c (role # roles) (reformulation_dict, count) =
     (case scan_family c role of
        Inl e \<Rightarrow> Inl e
      | Inr None \<Rightarrow> scan_families c roles (reformulation_dict, count)
      | Inr (Some en) \<Rightarrow>
          scan_families c roles (AList.update count en reformulation_dict, count + 1))"

fun scan_constraints ::
  "LogicalConstraint list \<Rightarrow> (component \<times> nat list \<times> nat list) list \<Rightarrow>
     entry dict \<times> int \<Rightarrow> error + (entry dict \<times> int)" where
  "scan_constraints [] roles acc = Inr acc"
| "scan_constraints (c # cs) roles acc =
     (if body_name c = ''exactly'' then
        (case scan_families c roles acc of
           Inl e \<Rightarrow> Inl e
         | Inr acc' \<Rightarrow> scan_constraints cs roles acc')
      else scan_constraints cs roles acc)"

text \<open>
  \<open>get_external_information(m, Ext_Ref)\<close>: the model is given by the list of its
  logical constraints, in the order of \<open>component_data_objects\<close>.  The result is
  \<open>(reformulation_dict, number_of_external_variables, lower_bounds,
  upper_bounds)\<close>.
\<close>

definition get_external_information ::
  "LogicalConstraint list \<Rightarrow> (component \<times> string) list \<Rightarrow>
     error + (entry dict \<times> nat \<times> int list \<times> int list)" where
  "get_external_information m Ext_Ref =
     (case scan_constraints m (index_roles Ext_Ref) ([], 1) of
        Inl e \<Rightarrow> Inl e
      | Inr (reformulation_dict, count) \<Rightarrow>
          Inr (reformulation_dict,
               sum_list (map (exactly_number \<circ> snd) reformulation_dict),
               concat (map (\<lambda>(i, en). replicate (exactly_number en) (Ext_var_lower_bound en))
                         reformulation_dict),
               concat (map (\<lambda>(i, en). replicate (exactly_number en) (Ext_var_upper_bound en))
                         reformulation_dict)))"

section \<open>Fixing the Boolean variables (\<open>external_ref\<close>)\<close>














section \<open>The hand-written fixing of the small batch model (\<open>gdp_small_batch.py\<close>)\<close>

text \<open>
  \<open>external_ref(m, x)\<close> of the small batch model fixes, for every number of units
  \<open>k\<close> in \<open>m.k\<close> and every stage \<open>j\<close> in \<open>m.j\<close>, the Boolean \<open>Y[k, j]\<close> and the
  indicator variables of the two disjuncts.  The state holds the fixing of these
  three families; the rest of the model is the extension of the record.
\<close>

record small_batch_model =
  Y :: "int \<times> string \<Rightarrow> bool option"
  Y_exists :: "int \<times> string \<Rightarrow> bool option"
  Y_not_exists :: "int \<times> string \<Rightarrow> bool option"

text \<open>The loop \<open>for j in m.j: ext_var[j] = x[p]; p = p+1\<close>.\<close>

fun small_batch_ext_var ::
  "string list \<Rightarrow> int list \<Rightarrow> nat \<Rightarrow> (string \<rightharpoonup> int) \<Rightarrow> error + (string \<rightharpoonup> int)" where
  "small_batch_ext_var [] x p ext_var = Inr ext_var"
| "small_batch_ext_var (j # js) x p ext_var =
     (if length x \<le> p then Inl IndexError
      else small_batch_ext_var js x (p + 1) (ext_var(j \<mapsto> x ! p)))"

text \<open>The inner loop \<open>for j in m.j\<close> for one \<open>k\<close>, and the outer loop
  \<open>for k in m.k\<close>.\<close>

fun small_batch_fix_j ::
  "int \<Rightarrow> string list \<Rightarrow> (string \<rightharpoonup> int) \<Rightarrow> 'a small_batch_model_scheme \<Rightarrow>
     error + 'a small_batch_model_scheme" where
  "small_batch_fix_j k [] ext_var m = Inr m"
| "small_batch_fix_j k (j # js) ext_var m =
     (case ext_var j of
        None \<Rightarrow> Inl KeyError
      | Some v \<Rightarrow>
          small_batch_fix_j k js ext_var
            (if k = v
             then m\<lparr> Y := (Y m)((k, j) := Some True),
                     Y_exists := (Y_exists m)((k, j) := Some True),
                     Y_not_exists := (Y_not_exists m)((k, j) := Some False) \<rparr>
             else m\<lparr> Y := (Y m)((k, j) := Some False),
                     Y_exists := (Y_exists m)((k, j) := Some False),
                     Y_not_exists := (Y_not_exists m)((k, j) := Some True) \<rparr>))"

fun small_batch_fix_k ::
  "int list \<Rightarrow> string list \<Rightarrow> (string \<rightharpoonup> int) \<Rightarrow> 'a small_batch_model_scheme \<Rightarrow>
     error + 'a small_batch_model_scheme" where
  "small_batch_fix_k [] js ext_var m = Inr m"
| "small_batch_fix_k (k # ks) js ext_var m =
     (case small_batch_fix_j k js ext_var m of
        Inl e \<Rightarrow> Inl e
      | Inr m' \<Rightarrow> small_batch_fix_k ks js ext_var m')"

text \<open>The two loop nests of \<open>external_ref(m, x)\<close>, with the sets \<open>m.k\<close> and \<open>m.j\<close>
  of the model as lists in iteration order.\<close>

definition small_batch_fix_Booleans ::
  "int list \<Rightarrow> string list \<Rightarrow> 'a small_batch_model_scheme \<Rightarrow> int list \<Rightarrow>
     error + 'a small_batch_model_scheme" where
  "small_batch_fix_Booleans mk mj m x =
     (case small_batch_ext_var mj x 0 Map.empty of
        Inl e \<Rightarrow> Inl e
      | Inr ext_var \<Rightarrow> small_batch_fix_k mk mj ext_var m)"

text \<open>
  \<open>external_ref(m, x)\<close>: the loops, then the transformations
  \<open>core.logical_to_linear\<close>, \<open>gdp.fix_disjuncts\<close> and
  \<open>contrib.deactivate_trivial_constraints\<close> of pyomo, which are parameters, and
  \<open>return m\<close>.
\<close>

definition small_batch_external_ref ::
  "('a small_batch_model_scheme \<Rightarrow> error + 'a small_batch_model_scheme) \<Rightarrow>
   ('a small_batch_model_scheme \<Rightarrow> error + 'a small_batch_model_scheme) \<Rightarrow>
   ('a small_batch_model_scheme \<Rightarrow> error + 'a small_batch_model_scheme) \<Rightarrow>
   int list \<Rightarrow> string list \<Rightarrow> 'a small_batch_model_scheme \<Rightarrow> int list \<Rightarrow>
     error + 'a small_batch_model_scheme" where
  "small_batch_external_ref logical_to_linear fix_disjuncts deactivate_trivial_constraints
       mk mj m x =
     (case small_batch_fix_Booleans mk mj m x of
        Inl e \<Rightarrow> Inl e
      | Inr m1 \<Rightarrow>
          (case logical_to_linear m1 of
             Inl e \<Rightarrow> Inl e
           | Inr m2 \<Rightarrow>
               (case fix_disjuncts m2 of
                  Inl e \<Rightarrow> Inl e
                | Inr m3 \<Rightarrow> deactivate_trivial_constraints m3)))"

section \<open>Notions for the effect of \<open>external_ref\<close>\<close>







section \<open>Notions for the entries of the scanner\<close>

text \<open>
  \<open>is_reference_index\<close> says that \<open>ix\<close> is the index value of the Boolean \<open>v\<close> on
  the reference set, for a component whose index dimensions have the roles
  \<open>expected_ordered_set_index\<close> (the positions of the reference set) and
  \<open>index_of_other_sets\<close>: with other dimensions it is the value \<open>v.index()[r]\<close> on
  the first position \<open>r\<close> of the reference set, without them the whole index
  \<open>v.index()\<close>.

  \<open>entry_of c role en\<close> says that the entry \<open>en\<close> holds the arguments of the
  constraint \<open>c\<close>, all of the component of \<open>role\<close>: its Booleans are the arguments
  of \<open>c\<close>, each as often as it occurs there, \<open>Boolean_vars_ordered_index\<close> holds at
  each position the reference index of the Boolean at that position, and
  \<open>Boolean_vars_names\<close> its name.
\<close>

definition is_reference_index :: "nat list \<Rightarrow> nat list \<Rightarrow> BooleanVar \<Rightarrow> index \<Rightarrow> bool" where
  "is_reference_index expected_ordered_set_index index_of_other_sets v ix =
     (if length index_of_other_sets \<ge> 1 then
        (case expected_ordered_set_index of
           [] \<Rightarrow> False
         | r # _ \<Rightarrow>
             (case ix of
                Scalar i \<Rightarrow> subscript (var_index v) r = Inr i
              | Tuple _ \<Rightarrow> False))
      else ix = var_index v)"

definition entry_of :: "LogicalConstraint \<Rightarrow> component \<times> nat list \<times> nat list \<Rightarrow> entry \<Rightarrow> bool" where
  "entry_of c role en =
     (case role of (possible_Boolean, expected_ordered_set_index, index_of_other_sets) \<Rightarrow>
        list_all (\<lambda>a. var_component a = comp_name possible_Boolean) (body_vars c) \<and>
        exactly_number en = body_number c \<and>
        length (Boolean_vars en) = length (body_vars c) \<and>
        list_all (\<lambda>a. count_list (Boolean_vars en) a = count_list (body_vars c) a) (body_vars c) \<and>
        list_all2 (is_reference_index expected_ordered_set_index index_of_other_sets)
          (Boolean_vars en) (Boolean_vars_ordered_index en) \<and>
        Boolean_vars_names en = map var_name (Boolean_vars en))"

section \<open>Concrete inputs\<close>

text \<open>
  A solver for the examples: the objective of \<open>[x1, x2]\<close> is
  \<open>(x1 - 3)\<^sup>2 + (x2 - 1)\<^sup>2\<close>, the solve of \<open>[2, 2]\<close> fails, every other solve
  has status \<open>ok\<close>; the initialization carries no data.  \<open>int_double n\<close> is the
  float of the integer \<open>n\<close>.
\<close>

definition int_double :: "int \<Rightarrow> double" where
  "int_double n = double_of (of_int n)"

definition example_solver :: "unit solver" where
  "example_solver NT x w =
     (int_double ((x ! 0 - 3) * (x ! 0 - 3) + (x ! 1 - 1) * (x ! 1 - 1)),
      if x = [2, 2] then solver_error else ok,
      ())"

text \<open>The dict that \<open>my_neighbors\<close> returns for the incumbent \<open>[3, 2]\<close>.\<close>

definition example_neighbors :: "vec dict" where
  "example_neighbors = [(0, [3, 2]), (1, [4, 2]), (2, [3, 3]), (3, [2, 2]), (4, [3, 1])]"

text \<open>A store that holds this dict at every reference, the floats that the
  literals \<open>0.00781\<close>, \<open>0.00782\<close>, \<open>0.032\<close> and \<open>0.032010000000000004\<close> denote,
  and a solver that returns the objective \<open>c\<close> with status \<open>ok\<close> for every
  vector.\<close>

definition example_store :: store where
  "example_store = (\<lambda>_. example_neighbors)"

definition float_0_00781 :: double where
  "float_0_00781 = double_of (781 / 100000)"

definition float_0_00782 :: double where
  "float_0_00782 = double_of (782 / 100000)"

definition float_0_032 :: double where
  "float_0_032 = double_of (32 / 1000)"

definition float_0_03201 :: double where
  "float_0_03201 = double_of (32010000000000004 / 10 ^ 18)"

definition example_flat_solver :: "double \<Rightarrow> unit solver" where
  "example_flat_solver c NT x w = (c, ok, ())"

text \<open>Two start vectors that \<open>external_init\<close> can return for \<open>NT = 3\<close>: both
  satisfy its bounds \<open>(1, NT)\<close> and its constraint \<open>x2 - x1 \<le> 0\<close>.\<close>

definition example_init :: "int \<Rightarrow> vec" where
  "example_init NT = [1, 1]"

definition example_init_3_1 :: "int \<Rightarrow> vec" where
  "example_init_3_1 NT = [3, 1]"

section \<open>Concrete models\<close>


definition example_Z :: "int \<Rightarrow> int \<Rightarrow> BooleanVar" where
  "example_Z k j = \<lparr> var_id = nat (10 * k + j), var_name = ''Z'', var_component = ''Z'',
                     var_index = Tuple [k, j] \<rparr>"



definition example_model_Z :: "LogicalConstraint list" where
  "example_model_Z =
     [\<lparr> body_name = ''exactly'', body_number = 1,
        body_vars = [example_Z 3 7, example_Z 1 7, example_Z 2 7] \<rparr>]"

definition example_Ext_Ref_Z :: "(component \<times> string) list" where
  "example_Ext_Ref_Z =
     [(\<lparr> comp_name = ''Z'', comp_index_set = SetProduct ''Z_index'' [''K'', ''J''] \<rparr>, ''K'')]"



definition example_dict_Z :: "entry dict" where
  "example_dict_Z =
     [(1, \<lparr> exactly_number = 1,
             Boolean_vars = [example_Z 1 7, example_Z 2 7, example_Z 3 7],
             Boolean_vars_names = [''Z'', ''Z'', ''Z''],
             Boolean_vars_ordered_index = [Scalar 1, Scalar 2, Scalar 3],
             Ext_var_lower_bound = 1,
             Ext_var_upper_bound = 3 \<rparr>)]"

section \<open>Notions for the termination of the driver\<close>

text \<open>
  The vectors inside the box of \<open>dsda\<close>; the objective values that the scan of
  the neighbors can return for them (it always solves from the initialization
  \<open>init\<close> of the start vector); the number of these values below the current
  \<open>fmin\<close>; and a bound on the moves that the line search can still make along
  its direction.
\<close>

definition box_vectors :: "vec set" where
  "box_vectors = {v. in_box dsda_min_allowed dsda_max_allowed v}"

definition explore_values :: "'i solver \<Rightarrow> int \<Rightarrow> 'i \<Rightarrow> double set" where
  "explore_values f NT init = solved_obj f NT init ` box_vectors"

definition improvements_left :: "'i solver \<Rightarrow> int \<Rightarrow> 'i dsda_state \<Rightarrow> nat" where
  "improvements_left f NT s = card {y \<in> explore_values f NT (st_init s). y < st_fmin s}"

definition moves_left :: "'i dsda_state \<Rightarrow> nat" where
  "moves_left s =
     (case st_neighborhood s of
        None \<Rightarrow> 0
      | Some neighborhood \<Rightarrow>
          (case map_of neighborhood (st_best_dir s) of
             None \<Rightarrow> 0
           | Some direction \<Rightarrow>
               nat (10 - sum_list (map (\<lambda>(a, b). a * b) (zip direction (st_best_var s))))))"

definition rank :: "'i dsda_state \<Rightarrow> nat" where
  "rank s = (if st_phase s = LINE_SEARCH then 1 + moves_left s else 0)"

section \<open>Properties of the neighborhood generator\<close>

lemma neighborhood_length: "length (neighborhood_k_eq_2 n) = 2 * n"
  by (simp add: neighborhood_k_eq_2_def)

lemma neighborhood_keys: "map fst (neighborhood_k_eq_2 n) = map int [1..<2 * n + 1]"
proof -
  have "map fst (neighborhood_k_eq_2 n) = map (\<lambda>i. int i + 1) [0..<2 * n]"
    by (simp add: neighborhood_k_eq_2_def comp_def)
  also have "\<dots> = map int (map Suc [0..<2 * n])"
    by (simp add: comp_def)
  also have "map Suc [0..<2 * n] = [1..<2 * n + 1]"
    using map_Suc_upt [of 0 "2 * n"] by simp
  finally show ?thesis .
qed

lemma map_of_map_inj_key:
  "inj f \<Longrightarrow> i \<in> set xs \<Longrightarrow> map_of (map (\<lambda>i. (f i, g i)) xs) (f i) = Some (g i)"
  by (induction xs) (auto simp: inj_eq)

lemma neighborhood_lookup:
  assumes "i < 2 * n"
  shows "map_of (neighborhood_k_eq_2 n) (int i + 1) =
           Some (map (\<lambda>j. neighbors_matrix n j i) [0..<n])"
proof -
  have inj: "inj (\<lambda>i. int i + 1)"
    by (simp add: inj_on_def)
  have mem: "i \<in> set [0..<2 * n]"
    using assms by simp
  show ?thesis
    unfolding neighborhood_k_eq_2_def
    by (rule map_of_map_inj_key [OF inj mem])
qed

text \<open>
  C7.  For every dimension \<open>n\<close> the k=2 neighborhood generator returns a mapping
  with exactly \<open>2n\<close> entries whose keys are \<open>1, \<dots>, 2n\<close> in this order; for each
  \<open>i\<close> in \<open>1..n\<close> entry \<open>i\<close> is the positive unit vector along coordinate \<open>i\<close>
  and entry \<open>i + n\<close> is its additive inverse.  (Nothing is required of \<open>n\<close>;
  for \<open>n = 0\<close> the mapping is empty.)
\<close>

theorem neighborhood_k_eq_2_signed_basis:
  "length (neighborhood_k_eq_2 n) = 2 * n \<and>
   keys (neighborhood_k_eq_2 n) = map int [1..<2 * n + 1] \<and>
   (\<forall>i \<in> {1..n}.
      map_of (neighborhood_k_eq_2 n) (int i) = Some (unit_vector n (i - 1)) \<and>
      map_of (neighborhood_k_eq_2 n) (int (i + n)) = Some (map uminus (unit_vector n (i - 1))))"
proof (intro conjI ballI)
  show "length (neighborhood_k_eq_2 n) = 2 * n"
    by (rule neighborhood_length)
  show "keys (neighborhood_k_eq_2 n) = map int [1..<2 * n + 1]"
    by (simp only: keys_def neighborhood_keys)
next
  fix i assume i: "i \<in> {1..n}"
  then have lt: "i - 1 < 2 * n" and eq: "int (i - 1) + 1 = int i" by auto
  have "map (\<lambda>j. neighbors_matrix n j (i - 1)) [0..<n] = unit_vector n (i - 1)"
    using i by (auto simp: neighbors_matrix_def eye_def unit_vector_def)
  with neighborhood_lookup [OF lt] eq
  show "map_of (neighborhood_k_eq_2 n) (int i) = Some (unit_vector n (i - 1))"
    by simp
next
  fix i assume i: "i \<in> {1..n}"
  then have lt: "i + n - 1 < 2 * n" and eq: "int (i + n - 1) + 1 = int (i + n)" by auto
  have "map (\<lambda>j. neighbors_matrix n j (i + n - 1)) [0..<n] = map uminus (unit_vector n (i - 1))"
    using i by (auto simp: neighbors_matrix_def eye_def unit_vector_def)
  with neighborhood_lookup [OF lt] eq
  show "map_of (neighborhood_k_eq_2 n) (int (i + n)) = Some (map uminus (unit_vector n (i - 1)))"
    by simp
qed

theorem neighborhood_k_eq_2_signed_basis_witness:
  "(2::nat) \<in> {1..2} \<and>
   map_of (neighborhood_k_eq_2 2) 2 = Some [0, 1] \<and>
   map_of (neighborhood_k_eq_2 2) 4 = Some [0, -1] \<and>
   keys (neighborhood_k_eq_2 2) = [1, 2, 3, 4]"
proof -
  have m: "(2::nat) \<in> {1..2}" by simp
  have u: "unit_vector 2 (2 - 1) = [0, 1]"
    by (simp add: unit_vector_def upt_rec)
  have k: "map int [1..<2 * 2 + 1] = [1, 2, 3, 4]"
    by (simp add: upt_rec)
  from neighborhood_k_eq_2_signed_basis [of 2]
  have ks: "keys (neighborhood_k_eq_2 2) = map int [1..<2 * 2 + 1]"
    and b: "\<forall>i \<in> {1..2}.
      map_of (neighborhood_k_eq_2 2) (int i) = Some (unit_vector 2 (i - 1)) \<and>
      map_of (neighborhood_k_eq_2 2) (int (i + 2)) = Some (map uminus (unit_vector 2 (i - 1)))"
    by blast+
  from bspec [OF b m] u
  have "map_of (neighborhood_k_eq_2 2) 2 = Some [0, 1]"
    and "map_of (neighborhood_k_eq_2 2) 4 = Some [0, -1]"
    by simp_all
  with m ks k show ?thesis
    by simp
qed

section \<open>The scenario of the start vector \<open>[3, 2]\<close>\<close>

lemma neighborhood_2: "neighborhood_k_eq_2 2 = [(1, [1, 0]), (2, [0, 1]), (3, [-1, 0]), (4, [0, -1])]"
  by (simp add: neighborhood_k_eq_2_def neighbors_matrix_def eye_def upt_rec)

lemma my_neighbors_3_2:
  "my_neighbors [3, 2] (neighborhood_k_eq_2 2) True [1 \<mapsto> 1, 2 \<mapsto> 1] [1 \<mapsto> 5, 2 \<mapsto> 5] True =
     Inr [(0, [3, 2]), (1, [4, 2]), (2, [3, 3]), (3, [2, 2]), (4, [3, 1])]"
  by (simp add: neighborhood_2 my_neighbors_def add_direction_def keys_def upt_rec)

text \<open>
  C3 (as amended).  For the start vector \<open>[3, 2]\<close> with the bounds \<open>[1, 5]\<close>, the k=2
  neighborhood and the asymmetry filter active, \<open>my_neighbors\<close> returns the
  incumbent under key 0 and all four neighbors \<open>[4,2]\<close>, \<open>[3,3]\<close>, \<open>[2,2]\<close>,
  \<open>[3,1]\<close>, in this order: all of them are inside the box and none has
  \<open>x2 - x1 > 0\<close>.  In particular \<open>[3,3]\<close> is kept, since \<open>3 - 3 > 0\<close> is false.
\<close>

theorem my_neighbors_scenario:
  "my_neighbors [3, 2] (neighborhood_k_eq_2 2) True [1 \<mapsto> 1, 2 \<mapsto> 1] [1 \<mapsto> 5, 2 \<mapsto> 5] True =
     Inr [(0, [3, 2]), (1, [4, 2]), (2, [3, 3]), (3, [2, 2]), (4, [3, 1])]"
  by (rule my_neighbors_3_2)

text \<open>The claim as written fails: \<open>[3, 3]\<close> is among the returned candidates.\<close>

theorem my_neighbors_scenario_counterexample:
  "[3, 3] \<in> snd ` set (projr (my_neighbors [3, 2] (neighborhood_k_eq_2 2) True
       [1 \<mapsto> 1, 2 \<mapsto> 1] [1 \<mapsto> 5, 2 \<mapsto> 5] True))"
  by (simp add: my_neighbors_3_2)

section \<open>Rounding to the nearest float\<close>

lemma round_even_between: "\<lfloor>y\<rfloor> \<le> round_even y \<and> round_even y \<le> \<lceil>y\<rceil>"
  unfolding round_even_def Let_def by (auto simp: ceiling_altdef)

lemma round_even_of_int [simp]: "round_even (of_int n) = n"
  by (simp add: round_even_def)

lemma round_even_ge:
  assumes "of_int n \<le> y" shows "n \<le> round_even y"
proof -
  from assms have "n \<le> \<lfloor>y\<rfloor>" by (simp add: le_floor_iff)
  with round_even_between [of y] show ?thesis by linarith
qed

lemma round_even_le:
  assumes "y \<le> of_int n" shows "round_even y \<le> n"
proof -
  from assms have "\<lceil>y\<rceil> \<le> n" by (simp add: ceiling_le_iff)
  with round_even_between [of y] show ?thesis by linarith
qed

lemma round_even_mono:
  assumes "x \<le> y" shows "round_even x \<le> round_even y"
proof (cases "\<lfloor>x\<rfloor> = \<lfloor>y\<rfloor>")
  case True
  with assms show ?thesis
    unfolding round_even_def Let_def by auto
next
  case False
  with assms have "\<lfloor>x\<rfloor> < \<lfloor>y\<rfloor>" using floor_mono [OF assms] by simp
  then have "\<lfloor>x\<rfloor> + 1 \<le> \<lfloor>y\<rfloor>" by simp
  moreover have "round_even x \<le> \<lfloor>x\<rfloor> + 1"
    unfolding round_even_def Let_def by auto
  moreover have "\<lfloor>y\<rfloor> \<le> round_even y" using round_even_between by blast
  ultimately show ?thesis by linarith
qed

lemma round_even_uminus: "round_even (- y) = - round_even y"
proof (cases "y \<in> \<int>")
  case True
  then obtain n where "y = of_int n" by (auto elim: Ints_cases)
  then have "round_even (- y) = round_even (of_int (- n))" by simp
  also have "\<dots> = - n" by (rule round_even_of_int)
  finally show ?thesis using \<open>y = of_int n\<close> by simp
next
  case False
  then have "y \<noteq> of_int \<lfloor>y\<rfloor>" by (metis Ints_of_int)
  then have f: "\<lfloor>- y\<rfloor> = - \<lfloor>y\<rfloor> - 1"
    by (simp add: floor_minus ceiling_altdef)
  show ?thesis
    unfolding round_even_def Let_def f by auto
qed

lemma nat_int_add: "nat (k + int j) = nat k + j" if "0 \<le> k"
  using that by linarith

lemma tiny_pos: "0 < tiny"
  by (simp add: tiny_def)

lemma ulp_pos: "0 < ulp x"
  by (simp add: ulp_def tiny_pos)

lemma binade_abs: "binade (- x) = binade x"
  by (simp add: binade_def)

lemma ulp_uminus: "ulp (- x) = ulp x"
  by (simp add: ulp_def binade_abs)

lemma fl_uminus: "fl (- x) = - fl x"
  by (simp add: fl_def ulp_uminus round_even_uminus)

lemma fl_0 [simp]: "fl 0 = 0"
  using round_even_of_int [of 0] by (simp add: fl_def)

lemma binade_upper: "\<bar>x\<bar> / tiny < 2 ^ (53 + binade x)"
proof -
  let ?n = "\<lfloor>\<bar>x\<bar> / tiny\<rfloor>"
  have "bitlen ?n \<le> int (53 + binade x)"
    by (simp add: binade_def)
  then have "?n < 2 ^ (53 + binade x)"
    unfolding bitlen_le_iff_power by (simp add: nat_int_add)
  then show ?thesis
    by (simp add: floor_less_iff)
qed

lemma binade_lower:
  assumes "0 < binade x" shows "2 ^ (52 + binade x) \<le> \<bar>x\<bar> / tiny"
proof -
  let ?n = "\<lfloor>\<bar>x\<bar> / tiny\<rfloor>"
  from assms have "int (53 + binade x) \<le> bitlen ?n"
    by (simp add: binade_def)
  then have "2 ^ (nat (int (53 + binade x)) - 1) \<le> ?n"
    unfolding bitlen_ge_iff_power by simp
  then have "2 ^ (52 + binade x) \<le> ?n" by (simp add: nat_int_add)
  then show ?thesis
    by (simp add: le_floor_iff)
qed

lemma binade_eqI:
  assumes "2 ^ (52 + j) \<le> \<bar>x\<bar> / tiny" and "\<bar>x\<bar> / tiny < 2 ^ (53 + j)"
  shows "binade x = j"
proof -
  let ?n = "\<lfloor>\<bar>x\<bar> / tiny\<rfloor>"
  from assms(1) have "2 ^ (52 + j) \<le> ?n" by (simp add: le_floor_iff)
  then have "int (53 + j) \<le> bitlen ?n"
    unfolding bitlen_ge_iff_power by (simp add: nat_int_add)
  moreover from assms(2) have "?n < 2 ^ (53 + j)" by (simp add: floor_less_iff)
  then have "bitlen ?n \<le> int (53 + j)"
    unfolding bitlen_le_iff_power by (simp add: nat_int_add)
  ultimately show ?thesis by (simp add: binade_def)
qed

lemma binade_0I:
  assumes "\<bar>x\<bar> / tiny < 2 ^ 53"
  shows "binade x = 0"
proof -
  let ?n = "\<lfloor>\<bar>x\<bar> / tiny\<rfloor>"
  from assms have "?n < 2 ^ 53" by (simp add: floor_less_iff)
  then have "bitlen ?n \<le> 53"
    unfolding bitlen_le_iff_power by simp
  then show ?thesis by (simp add: binade_def)
qed

lemma binade_mono:
  assumes "\<bar>x\<bar> \<le> \<bar>y\<bar>" shows "binade x \<le> binade y"
proof (cases "binade x = 0")
  case True
  then show ?thesis by simp
next
  case False
  then have "2 ^ (52 + binade x) \<le> \<bar>x\<bar> / tiny" by (simp add: binade_lower)
  also have "\<dots> \<le> \<bar>y\<bar> / tiny" using assms tiny_pos by (simp add: divide_right_mono)
  also have "\<dots> < 2 ^ (53 + binade y)" by (rule binade_upper)
  finally have "(2::real) ^ (52 + binade x) < 2 ^ (53 + binade y)" .
  then have "52 + binade x < 53 + binade y" by simp
  then show ?thesis by simp
qed

lemma binade_leI:
  assumes "\<bar>z\<bar> / tiny < 2 ^ (53 + b)"
  shows "binade z \<le> b"
proof -
  let ?n = "\<lfloor>\<bar>z\<bar> / tiny\<rfloor>"
  from assms have "?n < 2 ^ (53 + b)" by (simp add: floor_less_iff)
  then have "bitlen ?n \<le> int (53 + b)"
    unfolding bitlen_le_iff_power by (simp add: nat_int_add)
  then show ?thesis by (simp add: binade_def)
qed

lemma quotient_ulp: "x / ulp x = x / tiny / 2 ^ binade x"
  by (simp add: ulp_def)

lemma quotient_ulp_less: "\<bar>x / ulp x\<bar> < 2 ^ 53"
proof -
  have "\<bar>x / ulp x\<bar> = \<bar>x\<bar> / tiny / 2 ^ binade x"
    using tiny_pos by (simp add: quotient_ulp abs_mult)
  also have "\<dots> < 2 ^ (53 + binade x) / 2 ^ binade x"
    by (intro divide_strict_right_mono binade_upper) simp
  also have "\<dots> = 2 ^ 53" by (simp add: power_add)
  finally show ?thesis .
qed

lemma round_even_abs_le: "\<bar>round_even (x / ulp x)\<bar> \<le> 2 ^ 53"
proof -
  note l = quotient_ulp_less [of x, unfolded abs_less_iff]
  from l have a: "x / ulp x \<le> of_int (2 ^ 53)" by simp
  from l have b: "of_int (- (2 ^ 53)) \<le> x / ulp x" by simp
  from round_even_le [OF a] round_even_ge [OF b] show ?thesis by simp
qed

lemma fl_nonneg: "0 \<le> x \<Longrightarrow> 0 \<le> fl x"
proof -
  assume "0 \<le> x"
  then have "of_int 0 \<le> x / ulp x" using ulp_pos [of x] by simp
  then have "0 \<le> round_even (x / ulp x)" by (rule round_even_ge)
  then show ?thesis using ulp_pos [of x] by (simp add: fl_def)
qed

lemma fl_le_binade:
  "fl x \<le> 2 ^ (53 + binade x) * tiny"
proof -
  from round_even_abs_le [of x] have "round_even (x / ulp x) \<le> 2 ^ 53" by simp
  then have "real_of_int (round_even (x / ulp x)) \<le> 2 ^ 53"
    by (metis of_int_le_numeral_power_cancel_iff)
  then have "fl x \<le> 2 ^ 53 * ulp x"
    unfolding fl_def using ulp_pos [of x] by (simp add: mult_right_mono)
  then show ?thesis by (simp add: ulp_def power_add)
qed

lemma fl_ge_binade:
  assumes "0 \<le> x" and "0 < binade x"
  shows "2 ^ (52 + binade x) * tiny \<le> fl x"
proof -
  from binade_lower [OF assms(2)] assms(1)
  have "2 ^ (52 + binade x) \<le> x / tiny" by simp
  then have "2 ^ 52 * 2 ^ binade x \<le> x / tiny" by (simp add: power_add)
  then have "2 ^ 52 \<le> x / tiny / 2 ^ binade x"
    by (subst pos_le_divide_eq) simp_all
  then have "2 ^ 52 \<le> x / ulp x" by (simp only: quotient_ulp)
  then have "of_int (2 ^ 52) \<le> x / ulp x" by simp
  then have "2 ^ 52 \<le> round_even (x / ulp x)" by (rule round_even_ge)
  then have "2 ^ 52 \<le> real_of_int (round_even (x / ulp x))"
    by (metis numeral_power_le_of_int_cancel_iff)
  then have "2 ^ 52 * ulp x \<le> fl x"
    unfolding fl_def using ulp_pos [of x] by (simp add: mult_right_mono)
  then show ?thesis by (simp add: ulp_def power_add)
qed

lemma fl_mono_nonneg:
  assumes "0 \<le> x" and "x \<le> y"
  shows "fl x \<le> fl y"
proof -
  from assms have y: "0 \<le> y" by simp
  from assms have "binade x \<le> binade y" by (intro binade_mono) simp
  then consider "binade x = binade y" | "binade x < binade y" by linarith
  then show ?thesis
  proof cases
    case 1
    then have u: "ulp x = ulp y" by (simp add: ulp_def)
    from assms(2) have "x / ulp y \<le> y / ulp y"
      using ulp_pos [of y] by (simp add: divide_right_mono)
    then have "round_even (x / ulp y) \<le> round_even (y / ulp y)" by (rule round_even_mono)
    then show ?thesis
      unfolding fl_def u using ulp_pos [of y] by (simp add: mult_right_mono)
  next
    case 2
    then have pos: "0 < binade y" by simp
    have "fl x \<le> 2 ^ (53 + binade x) * tiny" by (rule fl_le_binade)
    also have "\<dots> \<le> 2 ^ (52 + binade y) * tiny"
      using 2 tiny_pos by (simp add: mult_right_mono)
    also have "\<dots> \<le> fl y" using y pos by (rule fl_ge_binade)
    finally show ?thesis .
  qed
qed

lemma fl_mono:
  assumes "x \<le> y" shows "fl x \<le> fl y"
proof -
  consider "0 \<le> x" | "x < 0" "0 \<le> y" | "y < 0" using assms by linarith
  then show ?thesis
  proof cases
    case 1
    then show ?thesis using assms by (rule fl_mono_nonneg)
  next
    case 2
    then have "0 \<le> fl (- x)" by (intro fl_nonneg) simp
    then have "fl x \<le> 0" by (simp add: fl_uminus)
    also have "0 \<le> fl y" using 2 by (intro fl_nonneg)
    finally show ?thesis .
  next
    case 3
    then have "0 \<le> - y" "- y \<le> - x" using assms by simp_all
    then have "fl (- y) \<le> fl (- x)" by (rule fl_mono_nonneg)
    then show ?thesis by (simp add: fl_uminus)
  qed
qed

lemma fl_grid:
  assumes b: "binade z \<le> b" and z: "z = of_int r * 2 ^ b * tiny"
  shows "fl z = z"
proof -
  have "z / ulp z = of_int r * 2 ^ b / 2 ^ binade z"
    using tiny_pos by (simp add: ulp_def z)
  also have "\<dots> = of_int r * 2 ^ (b - binade z)"
    using b by (simp add: power_diff)
  also have "\<dots> = of_int (r * 2 ^ (b - binade z))" by simp
  finally have q: "z / ulp z = of_int (r * 2 ^ (b - binade z))" .
  have "fl z = of_int (r * 2 ^ (b - binade z)) * ulp z"
    unfolding fl_def q round_even_of_int ..
  also have "\<dots> = z / ulp z * ulp z" by (simp only: q)
  also have "\<dots> = z" using ulp_pos [of z] by simp
  finally show ?thesis .
qed

lemma fl_idem: "fl (fl x) = fl x"
proof -
  let ?r = "round_even (x / ulp x)"
  let ?b = "binade x"
  have z: "fl x = of_int ?r * 2 ^ ?b * tiny"
    by (simp add: fl_def ulp_def)
  have az: "\<bar>fl x\<bar> / tiny = of_int \<bar>?r\<bar> * 2 ^ ?b"
    using tiny_pos by (simp add: z abs_mult)
  from round_even_abs_le [of x] consider "\<bar>?r\<bar> < 2 ^ 53" | "?r = 2 ^ 53" | "?r = - (2 ^ 53)"
    by linarith
  then show ?thesis
  proof cases
    case 1
    then have "real_of_int \<bar>?r\<bar> < 2 ^ 53"
      by (metis of_int_less_numeral_power_cancel_iff)
    then have "\<bar>fl x\<bar> / tiny < 2 ^ 53 * 2 ^ ?b"
      unfolding az by (simp add: mult_strict_right_mono)
    then have "\<bar>fl x\<bar> / tiny < 2 ^ (53 + ?b)" by (simp add: power_add)
    then have "binade (fl x) \<le> ?b" by (rule binade_leI)
    then show ?thesis using z by (rule fl_grid)
  next
    case 2
    then have z2: "fl x = of_int (2 ^ 52) * 2 ^ (Suc ?b) * tiny"
      by (simp add: z)
    have "\<bar>fl x\<bar> / tiny = 2 ^ (53 + ?b)"
      unfolding az 2 by (simp add: power_add)
    also have "\<dots> < 2 ^ (53 + Suc ?b)" by simp
    finally have "binade (fl x) \<le> Suc ?b" by (rule binade_leI)
    then show ?thesis using z2 by (rule fl_grid)
  next
    case 3
    then have z2: "fl x = of_int (- (2 ^ 52)) * 2 ^ (Suc ?b) * tiny"
      by (simp add: z)
    have "\<bar>fl x\<bar> / tiny = 2 ^ (53 + ?b)"
      unfolding az 3 by (simp add: power_add)
    also have "\<dots> < 2 ^ (53 + Suc ?b)" by simp
    finally have "binade (fl x) \<le> Suc ?b" by (rule binade_leI)
    then show ?thesis using z2 by (rule fl_grid)
  qed
qed

lemma fl_normal:
  assumes lo: "2 ^ 52 \<le> \<bar>x\<bar> * 2 ^ k" and hi: "\<bar>x\<bar> * 2 ^ k < 2 ^ 53" and k: "k \<le> emin"
  shows "fl x = of_int (round_even (x * 2 ^ k)) / 2 ^ k"
proof -
  have e: "(2::real) ^ emin = 2 ^ k * 2 ^ (emin - k)"
    using k by (simp flip: power_add)
  have q: "\<bar>x\<bar> / tiny = \<bar>x\<bar> * 2 ^ k * 2 ^ (emin - k)"
    by (simp add: tiny_def e)
  have "2 ^ (52 + (emin - k)) \<le> \<bar>x\<bar> / tiny"
    unfolding q power_add using lo by (simp add: mult_right_mono)
  moreover have "\<bar>x\<bar> / tiny < 2 ^ (53 + (emin - k))"
    unfolding q power_add using hi by (simp add: mult_strict_right_mono)
  ultimately have b: "binade x = emin - k" by (rule binade_eqI)
  have u: "ulp x = 1 / 2 ^ k"
    by (simp add: ulp_def b tiny_def e)
  show ?thesis
    by (simp add: fl_def u)
qed

lemma fl_dyadic:
  assumes m: "\<bar>m\<bar> < 2 ^ 53" and k: "k \<le> emin"
  shows "fl (of_int m / 2 ^ k) = of_int m / 2 ^ k"
proof -
  let ?z = "real_of_int m / 2 ^ k"
  have e: "(2::real) ^ emin = 2 ^ k * 2 ^ (emin - k)"
    using k by (simp flip: power_add)
  have z: "?z = of_int m * 2 ^ (emin - k) * tiny"
    by (simp add: tiny_def e)
  from m have "real_of_int \<bar>m\<bar> < 2 ^ 53"
    by (metis of_int_less_numeral_power_cancel_iff)
  then have "real_of_int \<bar>m\<bar> * 2 ^ (emin - k) < 2 ^ 53 * 2 ^ (emin - k)"
    by (simp add: mult_strict_right_mono)
  moreover have "\<bar>?z\<bar> / tiny = real_of_int \<bar>m\<bar> * 2 ^ (emin - k)"
    using tiny_pos by (simp add: z abs_mult)
  ultimately have "\<bar>?z\<bar> / tiny < 2 ^ (53 + (emin - k))"
    by (simp add: power_add)
  then have "binade ?z \<le> emin - k" by (rule binade_leI)
  then show ?thesis using z by (rule fl_grid)
qed

lemma fl_of_int:
  assumes "\<bar>m\<bar> < 2 ^ 53" shows "fl (of_int m) = of_int m"
  using fl_dyadic [OF assms, of 0] by simp

section \<open>Arithmetic and order of the floats\<close>

lemma val_fl: "fl (val a) = val a"
proof -
  from val [of a] obtain x where "val a = fl x" by blast
  then show ?thesis by (simp add: fl_idem)
qed

lemma val_double_of: "val (double_of x) = fl x"
  by (rule double_of.rep_eq)

lemma val_plus: "val (a + b) = fl (val a + val b)"
  by (rule plus_double.rep_eq)

lemma less_double_val: "a < b \<longleftrightarrow> val a < val b"
  by (rule less_double.rep_eq)

lemma less_eq_double_val: "a \<le> b \<longleftrightarrow> val a \<le> val b"
  by (rule less_eq_double.rep_eq)

lemma double_add_right_mono:
  fixes a b t :: double
  assumes "a \<le> b" shows "a + t \<le> b + t"
  using assms by (simp add: less_eq_double_val val_plus fl_mono)

lemma double_le_add:
  fixes a t :: double
  assumes "0 \<le> val t" shows "a \<le> a + t"
proof -
  from assms have "fl (val a) \<le> fl (val a + val t)" by (intro fl_mono) simp
  then show ?thesis by (simp add: less_eq_double_val val_plus val_fl)
qed

lemma double_add_less_cancel:
  fixes a b t :: double
  assumes "a + t < b + t" shows "a < b"
proof (rule ccontr)
  assume "\<not> a < b"
  then have "b \<le> a" by simp
  then have "b + t \<le> a + t" by (rule double_add_right_mono)
  with assms show False by simp
qed

lemma double_add_lessD:
  fixes a t f :: double
  assumes "a + t < f" and "0 \<le> val t" shows "a < f"
  using double_le_add [OF assms(2), of a] assms(1) by simp

lemma double_add_less_exact:
  fixes a t f :: double
  assumes "a + t < f" shows "val a + val t < val f"
proof (rule ccontr)
  assume "\<not> val a + val t < val f"
  then have "val f \<le> val a + val t" by simp
  then have "fl (val f) \<le> fl (val a + val t)" by (rule fl_mono)
  then have "f \<le> a + t" by (simp add: less_eq_double_val val_plus val_fl)
  with assms show False by simp
qed

lemma val_tol_default: "val tol_default = 5902958103587057 / 2 ^ 69"
  unfolding tol_default_def val_double_of
  by (subst fl_normal [where k = 69]) (simp_all add: emin_def round_even_def Let_def)

lemma tol_default_nonneg: "0 \<le> val tol_default"
  by (simp add: val_tol_default)

lemma val_double_of_int:
  assumes "\<bar>m\<bar> < 2 ^ 53" shows "val (double_of (of_int m)) = of_int m"
  unfolding val_double_of using assms by (rule fl_of_int)

lemma tiny_scale: "2 ^ (emin + j) * tiny = 2 ^ j"
  by (simp add: tiny_def power_add)

lemma fl_max_double: "fl max_double = max_double"
proof -
  have z: "max_double = of_int (2 ^ 53 - 1) * 2 ^ (emin + 971) * tiny"
    by (simp only: mult.assoc tiny_scale max_double_def) simp
  have "\<bar>max_double\<bar> / tiny = (2 ^ 53 - 1) * 2 ^ (emin + 971)"
    using tiny_pos by (simp add: z)
  also have "\<dots> < 2 ^ 53 * 2 ^ (emin + 971)"
    by (intro mult_strict_right_mono) simp_all
  finally have "\<bar>max_double\<bar> / tiny < 2 ^ (53 + (emin + 971))" by (simp only: power_add)
  then have "binade max_double \<le> emin + 971" by (rule binade_leI)
  then show ?thesis using z by (rule fl_grid)
qed

lemma fl_max_double_plus:
  assumes "0 \<le> t" and "t < 1"
  shows "fl (max_double + t) = max_double"
proof -
  let ?x = "max_double + t"
  let ?b = "emin + 971"
  have t971: "t / 2 ^ 971 < 1 / 2"
  proof -
    have "t / 2 ^ 971 \<le> t / 2 ^ 1" using assms(1) by (intro divide_left_mono) simp_all
    with assms(2) show ?thesis by simp
  qed
  have q: "?x / tiny = ((2 ^ 53 - 1) + t / 2 ^ 971) * 2 ^ ?b"
    by (simp add: max_double_def tiny_def power_add field_simps)
  have pos: "0 \<le> ?x" using assms(1) by (simp add: max_double_def)
  have lo: "2 ^ (52 + ?b) \<le> \<bar>?x\<bar> / tiny"
  proof -
    have "(2::real) ^ 52 \<le> (2 ^ 53 - 1) + t / 2 ^ 971" using assms(1) by simp
    then have "2 ^ 52 * 2 ^ ?b \<le> ((2 ^ 53 - 1) + t / 2 ^ 971) * 2 ^ ?b"
      by (intro mult_right_mono) simp_all
    then show ?thesis using pos by (simp only: q power_add abs_of_nonneg)
  qed
  have hi: "\<bar>?x\<bar> / tiny < 2 ^ (53 + ?b)"
  proof -
    have "(2 ^ 53 - 1) + t / 2 ^ 971 < (2::real) ^ 53" using t971 by simp
    then have "((2 ^ 53 - 1) + t / 2 ^ 971) * 2 ^ ?b < 2 ^ 53 * 2 ^ ?b"
      by (intro mult_strict_right_mono) simp_all
    then show ?thesis using pos by (simp only: q power_add abs_of_nonneg)
  qed
  from lo hi have b: "binade ?x = ?b" by (rule binade_eqI)
  have u: "ulp ?x = 2 ^ 971" by (simp only: ulp_def b tiny_scale)
  have "?x / ulp ?x = ?x / 2 ^ 971" by (simp only: u)
  also have "\<dots> = of_int (2 ^ 53 - 1) + t / 2 ^ 971"
    by (simp add: max_double_def add_divide_distrib)
  finally have "?x / ulp ?x = of_int (2 ^ 53 - 1) + t / 2 ^ 971" .
  moreover have "round_even (of_int (2 ^ 53 - 1) + t / 2 ^ 971) = 2 ^ 53 - 1"
  proof -
    have f: "\<lfloor>of_int (2 ^ 53 - 1) + t / 2 ^ 971\<rfloor> = 2 ^ 53 - 1"
      using assms(1) t971 by (subst floor_unique [where z = "2 ^ 53 - 1"]) simp_all
    show ?thesis
      unfolding round_even_def Let_def f using t971 by simp
  qed
  ultimately have "fl ?x = of_int (2 ^ 53 - 1) * 2 ^ 971"
    by (simp only: fl_def u)
  then show ?thesis by (simp add: max_double_def)
qed

text \<open>Adding the default tolerance to a binary64 number does not overflow.\<close>

lemma add_tol_finite:
  assumes "\<bar>val a\<bar> \<le> max_double"
  shows "\<bar>val (a + tol_default)\<bar> \<le> max_double"
proof -
  have t: "0 \<le> val tol_default" "val tol_default < 1" by (simp_all add: val_tol_default)
  from assms have "val a + val tol_default \<le> max_double + val tol_default" by simp
  then have "fl (val a + val tol_default) \<le> fl (max_double + val tol_default)" by (rule fl_mono)
  then have up: "val (a + tol_default) \<le> max_double"
    by (simp add: val_plus fl_max_double_plus [OF t])
  from assms t(1) have "- max_double \<le> val a + val tol_default" by simp
  then have "fl (- max_double) \<le> fl (val a + val tol_default)" by (rule fl_mono)
  then have "- max_double \<le> val (a + tol_default)"
    by (simp add: val_plus fl_uminus fl_max_double)
  with up show ?thesis by simp
qed

text \<open>For integral objective values the test \<open>a + tol < b\<close> of the driver is
  the comparison of the integers.\<close>

lemma int_add_tol_less:
  assumes a: "\<bar>a\<bar> < 2 ^ 51" and b: "\<bar>b\<bar> < 2 ^ 53"
  shows "double_of (of_int a) + tol_default < double_of (of_int b) \<longleftrightarrow> a < b"
proof -
  from a have a53: "\<bar>a\<bar> < 2 ^ 53" by simp
  have va: "val (double_of (of_int a)) = of_int a" using a53 by (rule val_double_of_int)
  have vb: "val (double_of (of_int b)) = of_int b" using b by (rule val_double_of_int)
  have lhs: "double_of (of_int a) + tol_default < double_of (of_int b) \<longleftrightarrow>
      fl (of_int a + val tol_default) < of_int b"
    by (simp add: less_double_val val_plus va vb)
  show ?thesis
  proof (cases "a < b")
    case True
    from a have h: "\<bar>2 * a + 1\<bar> < 2 ^ 53" by simp
    have half: "fl (of_int (2 * a + 1) / 2 ^ 1) = of_int (2 * a + 1) / 2 ^ 1"
      using h by (rule fl_dyadic) (simp add: emin_def)
    have "real_of_int a + val tol_default \<le> of_int (2 * a + 1) / 2 ^ 1"
      by (simp add: val_tol_default)
    then have "fl (of_int a + val tol_default) \<le> fl (of_int (2 * a + 1) / 2 ^ 1)"
      by (rule fl_mono)
    also have "\<dots> = of_int (2 * a + 1) / 2 ^ 1" by (rule half)
    also have "\<dots> < of_int b" using True by simp
    finally show ?thesis using True lhs by simp
  next
    case False
    then have "real_of_int b \<le> of_int a + val tol_default"
      using tol_default_nonneg by simp
    then have "fl (of_int b) \<le> fl (of_int a + val tol_default)" by (rule fl_mono)
    then have "real_of_int b \<le> fl (of_int a + val tol_default)"
      using fl_of_int [OF b] by simp
    with False lhs show ?thesis by simp
  qed
qed

section \<open>The scan of \<open>evaluate_neighbors\<close>\<close>

lemma scan_neighbors_foldl:
  assumes "\<forall>(i, x) \<in> set es. map_of (h temp) i = Some x \<and> map_of (h ext_vars) i = Some x"
  shows "scan_neighbors f NT h ext_vars temp init tol (map fst es) (acc, calls) =
           Inr (foldl (scan_step f NT init tol) acc es, calls @ map snd es)"
  using assms
proof (induction es arbitrary: acc calls)
  case Nil
  then show ?case by simp
next
  case (Cons e es)
  obtain i x where e: "e = (i, x)" by (cases e)
  obtain fmin bv bd bi imp where acc: "acc = (fmin, bv, bd, bi, imp)" by (cases acc)
  obtain ao st ni where r: "f NT x (Some init) = (ao, st, ni)" by (cases "f NT x (Some init)")
  from Cons.prems e have l: "map_of (h temp) i = Some x" "map_of (h ext_vars) i = Some x" by auto
  from Cons.prems have rest: "\<forall>(i, x) \<in> set es. map_of (h temp) i = Some x \<and> map_of (h ext_vars) i = Some x" by auto
  show ?case
    using Cons.IH [OF rest] l r
    by (simp add: e acc scan_step_def)
qed

lemma scan_inv_False:
  "scan_inv f NT init tol fmin0 v0 ps (fm, bv, bd, bi, False) \<longleftrightarrow>
     fm = fmin0 \<and> bv = v0 \<and> bd = 0 \<and> bi = init \<and>
     (\<forall>e \<in> set ps. solved_status f NT init (snd e) = ok \<longrightarrow>
        fmin0 \<le> solved_obj f NT init (snd e) + tol)"
  by (simp add: scan_inv_def)

lemma scan_inv_True:
  "scan_inv f NT init tol fmin0 v0 ps (fm, bv, bd, bi, True) \<longleftrightarrow>
     (\<exists>pre post. ps = pre @ (bd, bv) # post \<and>
        solved_status f NT init bv = ok \<and> solved_obj f NT init bv = fm \<and>
        solved_init f NT init bv = bi \<and> fm + tol < fmin0 \<and>
        (\<forall>e \<in> set pre. solved_status f NT init (snd e) = ok \<longrightarrow>
           fm < solved_obj f NT init (snd e)) \<and>
        (\<forall>e \<in> set post. solved_status f NT init (snd e) = ok \<longrightarrow>
           fm \<le> solved_obj f NT init (snd e) + tol))"
  by (simp add: scan_inv_def)

lemma scan_inv_bound:
  assumes tol: "0 \<le> val tol" and inv: "scan_inv f NT init tol fmin0 v0 ps (fm, bv, bd, bi, imp)"
  shows "fm \<le> fmin0"
    and "\<forall>e \<in> set ps. solved_status f NT init (snd e) = ok \<longrightarrow>
           fm \<le> solved_obj f NT init (snd e) + tol"
proof -
  show "fm \<le> fmin0"
  proof (cases imp)
    case True
    with inv have "scan_inv f NT init tol fmin0 v0 ps (fm, bv, bd, bi, True)" by simp
    then have "fm + tol < fmin0" unfolding scan_inv_True by blast
    from double_add_lessD [OF this tol] show ?thesis by simp
  next
    case False
    with inv have "scan_inv f NT init tol fmin0 v0 ps (fm, bv, bd, bi, False)" by simp
    then show ?thesis unfolding scan_inv_False by simp
  qed
  show "\<forall>e \<in> set ps. solved_status f NT init (snd e) = ok \<longrightarrow>
           fm \<le> solved_obj f NT init (snd e) + tol"
  proof (cases imp)
    case False
    with inv have "scan_inv f NT init tol fmin0 v0 ps (fm, bv, bd, bi, False)" by simp
    then show ?thesis unfolding scan_inv_False by simp
  next
    case True
    with inv have "scan_inv f NT init tol fmin0 v0 ps (fm, bv, bd, bi, True)" by simp
    then obtain pre post where p: "ps = pre @ (bd, bv) # post"
      "solved_status f NT init bv = ok" "solved_obj f NT init bv = fm"
      "\<forall>e \<in> set pre. solved_status f NT init (snd e) = ok \<longrightarrow> fm < solved_obj f NT init (snd e)"
      "\<forall>e \<in> set post. solved_status f NT init (snd e) = ok \<longrightarrow> fm \<le> solved_obj f NT init (snd e) + tol"
      unfolding scan_inv_True by blast
    show ?thesis
    proof (intro ballI impI)
      fix e assume e: "e \<in> set ps" and st: "solved_status f NT init (snd e) = ok"
      from e p(1) consider "e \<in> set pre" | "e = (bd, bv)" | "e \<in> set post" by auto
      then show "fm \<le> solved_obj f NT init (snd e) + tol"
      proof cases
        case 1
        with p(4) st have "fm < solved_obj f NT init (snd e)" by blast
        with double_le_add [OF tol, of "solved_obj f NT init (snd e)"] show ?thesis by simp
      next
        case 2
        with p(3) double_le_add [OF tol, of fm] show ?thesis by simp
      next
        case 3
        with p(5) st show ?thesis by blast
      qed
    qed
  qed
qed

lemma scan_inv_step:
  assumes tol: "0 \<le> val tol" and inv: "scan_inv f NT init tol fmin0 v0 ps acc"
  shows "scan_inv f NT init tol fmin0 v0 (ps @ [e]) (scan_step f NT init tol acc e)"
proof -
  obtain i x where e: "e = (i, x)" by (cases e)
  obtain fm bv bd bi imp where acc: "acc = (fm, bv, bd, bi, imp)" by (cases acc)
  obtain ao st ni where r: "f NT x (Some init) = (ao, st, ni)" by (cases "f NT x (Some init)")
  have so: "solved_obj f NT init x = ao" "solved_status f NT init x = st" "solved_init f NT init x = ni"
    using r by (simp_all add: solved_obj_def solved_status_def solved_init_def)
  note b = scan_inv_bound [OF tol inv [unfolded acc]]
  show ?thesis
  proof (cases "st = ok \<and> ao + tol < fm")
    case True
    then have step: "scan_step f NT init tol acc e = (ao, x, i, ni, True)"
      by (simp add: scan_step_def acc e r)
    have 1: "\<forall>e' \<in> set ps. solved_status f NT init (snd e') = ok \<longrightarrow> ao < solved_obj f NT init (snd e')"
    proof (intro ballI impI)
      fix e' assume "e' \<in> set ps" "solved_status f NT init (snd e') = ok"
      with b(2) have "fm \<le> solved_obj f NT init (snd e') + tol" by blast
      with True have "ao + tol < solved_obj f NT init (snd e') + tol"
        by (auto intro: less_le_trans)
      then show "ao < solved_obj f NT init (snd e')" by (rule double_add_less_cancel)
    qed
    have 2: "ao + tol < fmin0" using True b(1) by (auto intro: less_le_trans)
    have 3: "ps @ [e] = ps @ (i, x) # []" by (simp add: e)
    have 4: "\<forall>e \<in> set []. solved_status f NT init (snd e) = ok \<longrightarrow> ao \<le> solved_obj f NT init (snd e) + tol"
      by simp
    show ?thesis
      unfolding step scan_inv_True using 1 2 3 4 so True by blast
  next
    case False
    then have step: "scan_step f NT init tol acc e = acc"
      by (auto simp: scan_step_def acc e r)
    have new: "solved_status f NT init (snd e) = ok \<longrightarrow> fm \<le> solved_obj f NT init (snd e) + tol"
      using False so by (auto simp: e)
    show ?thesis
    proof (cases imp)
      case False
      with inv have "scan_inv f NT init tol fmin0 v0 ps (fm, bv, bd, bi, False)" by (simp add: acc)
      then have i: "fm = fmin0" "bv = v0" "bd = 0" "bi = init"
        "\<forall>e \<in> set ps. solved_status f NT init (snd e) = ok \<longrightarrow> fmin0 \<le> solved_obj f NT init (snd e) + tol"
        unfolding scan_inv_False by simp_all
      have "scan_inv f NT init tol fmin0 v0 (ps @ [e]) (fm, bv, bd, bi, False)"
        unfolding scan_inv_False using i new by simp
      then show ?thesis
        using step False by (simp add: acc)
    next
      case True
      with inv have "scan_inv f NT init tol fmin0 v0 ps (fm, bv, bd, bi, True)" by (simp add: acc)
      then obtain pre post where p: "ps = pre @ (bd, bv) # post"
        "solved_status f NT init bv = ok" "solved_obj f NT init bv = fm"
        "solved_init f NT init bv = bi" "fm + tol < fmin0"
        "\<forall>e \<in> set pre. solved_status f NT init (snd e) = ok \<longrightarrow> fm < solved_obj f NT init (snd e)"
        "\<forall>e \<in> set post. solved_status f NT init (snd e) = ok \<longrightarrow> fm \<le> solved_obj f NT init (snd e) + tol"
        unfolding scan_inv_True by blast
      have 1: "ps @ [e] = pre @ (bd, bv) # (post @ [e])" using p(1) by simp
      have 2: "\<forall>e' \<in> set (post @ [e]). solved_status f NT init (snd e') = ok \<longrightarrow> fm \<le> solved_obj f NT init (snd e') + tol"
        using p(7) new by simp
      have "scan_inv f NT init tol fmin0 v0 (ps @ [e]) (fm, bv, bd, bi, True)"
        unfolding scan_inv_True using 1 2 p(2-6) by blast
      then show ?thesis
        using step True by (simp add: acc)
    qed
  qed
qed

lemma scan_inv_foldl:
  assumes "0 \<le> val tol"
  shows "scan_inv f NT init tol fmin0 v0 es (foldl (scan_step f NT init tol) (fmin0, v0, 0, init, False) es)"
proof (induction es rule: rev_induct)
  case Nil
  show ?case by (simp add: scan_inv_def)
next
  case (snoc e es)
  then show ?case using scan_inv_step [OF assms] by simp
qed

section \<open>Properties of \<open>evaluate_neighbors\<close>\<close>

lemma evaluate_neighbors_result:
  assumes k0: "map_of (h r) 0 = Some v0" and wf: "distinct (keys (h r))"
  shows "evaluate_neighbors f NT h r init fmin tol =
           Inr (h(r := AList.delete 0 (h r)),
                foldl (scan_step f NT init tol) (fmin, v0, 0, init, False) (AList.delete 0 (h r)),
                map snd (AList.delete 0 (h r)))"
proof -
  let ?d = "AList.delete 0 (h r)"
  let ?h = "h(r := ?d)"
  have dist: "distinct (map fst ?d)"
    using wf by (simp add: keys_def distinct_delete)
  have look: "\<forall>(i, x) \<in> set ?d. map_of (?h r) i = Some x \<and> map_of (?h r) i = Some x"
    using dist by auto
  have "scan_neighbors f NT ?h r r init tol (map fst ?d) ((fmin, v0, 0, init, False), []) =
          Inr (foldl (scan_step f NT init tol) (fmin, v0, 0, init, False) ?d, [] @ map snd ?d)"
    using look by (rule scan_neighbors_foldl [where h = "?h" and temp = r and ext_vars = r])
  then show ?thesis
    using k0 by (simp add: evaluate_neighbors_def Let_def keys_def)
qed

text \<open>
  C4 (as amended).  A call of \<open>evaluate_neighbors\<close> with the default tolerance,
  on a dict that holds the incumbent under key 0, returns normally.  It returns
  \<open>improve = True\<close> exactly when some neighbor (an entry other than key 0) is
  solved with status \<open>ok\<close> and its objective plus \<open>tol\<close>, added as floats, is
  strictly below \<open>fmin\<close>; such a neighbor has an objective strictly below
  \<open>fmin - tol\<close> over the reals.  Without improvement the incoming \<open>fmin\<close>, the
  incumbent, direction 0 and the incoming initialization are returned.  With
  improvement the returned neighbor \<open>(best_dir, best_var)\<close> was solved with status
  \<open>ok\<close>, the returned \<open>fmin\<close> and initialization are its objective and
  initialization, every \<open>ok\<close> neighbor before it in iteration order has a
  strictly larger objective (so the first of several equal best ones wins), and
  no \<open>ok\<close> neighbor after it beats it by more than the tolerance.  The returned
  tuple is the value of the running scan: the loop body \<open>scan_step\<close>, which
  replaces the best so far only by an \<open>ok\<close> neighbor whose objective plus the
  tolerance is strictly below it, folded over the neighbors in iteration order.
\<close>

theorem evaluate_neighbors_running_best:
  assumes k0: "map_of (h ext_vars) 0 = Some v0" and wf: "distinct (keys (h ext_vars))"
  shows "\<exists>h' fm bv bd bi imp calls.
     evaluate_neighbors f NT h ext_vars init fmin tol_default =
       Inr (h', (fm, bv, bd, bi, imp), calls) \<and>
     (fm, bv, bd, bi, imp) =
       foldl (scan_step f NT init tol_default) (fmin, v0, 0, init, False)
         (AList.delete 0 (h ext_vars)) \<and>
     (imp \<longleftrightarrow> (\<exists>e \<in> set (AList.delete 0 (h ext_vars)).
                solved_status f NT init (snd e) = ok \<and>
                solved_obj f NT init (snd e) + tol_default < fmin)) \<and>
     (\<not> imp \<longrightarrow> fm = fmin \<and> bv = v0 \<and> bd = 0 \<and> bi = init) \<and>
     (imp \<longrightarrow> (\<exists>pre post.
        AList.delete 0 (h ext_vars) = pre @ (bd, bv) # post \<and>
        solved_status f NT init bv = ok \<and>
        fm = solved_obj f NT init bv \<and>
        bi = solved_init f NT init bv \<and>
        fm + tol_default < fmin \<and>
        val fm < val fmin - val tol_default \<and>
        (\<forall>e \<in> set pre. solved_status f NT init (snd e) = ok \<longrightarrow>
           fm < solved_obj f NT init (snd e)) \<and>
        (\<forall>e \<in> set post. solved_status f NT init (snd e) = ok \<longrightarrow>
           \<not> solved_obj f NT init (snd e) + tol_default < fm)))"
proof -
  let ?d = "AList.delete 0 (h ext_vars)"
  let ?acc = "foldl (scan_step f NT init tol_default) (fmin, v0, 0, init, False) ?d"
  obtain fm bv bd bi imp where acc: "?acc = (fm, bv, bd, bi, imp)" by (cases ?acc)
  note tol = tol_default_nonneg
  have inv: "scan_inv f NT init tol_default fmin v0 ?d (fm, bv, bd, bi, imp)"
    using scan_inv_foldl [OF tol, of f NT init fmin v0 ?d] acc by simp
  have res: "evaluate_neighbors f NT h ext_vars init fmin tol_default =
       Inr (h(ext_vars := ?d), (fm, bv, bd, bi, imp), map snd ?d)"
    by (simp only: evaluate_neighbors_result [where h = h and r = ext_vars, OF k0 wf] acc)
  show ?thesis
  proof (cases imp)
    case False
    with inv have i: "fm = fmin" "bv = v0" "bd = 0" "bi = init"
      "\<forall>e \<in> set ?d. solved_status f NT init (snd e) = ok \<longrightarrow>
          fmin \<le> solved_obj f NT init (snd e) + tol_default"
      by (simp_all add: scan_inv_False)
    have "\<not> (\<exists>e \<in> set ?d. solved_status f NT init (snd e) = ok \<and>
                solved_obj f NT init (snd e) + tol_default < fmin)"
      using i(5) by (auto simp: not_less)
    with res acc [symmetric] False i(1-4) show ?thesis by blast
  next
    case True
    with inv have "scan_inv f NT init tol_default fmin v0 ?d (fm, bv, bd, bi, True)" by simp
    then obtain pre post where p: "?d = pre @ (bd, bv) # post"
      "solved_status f NT init bv = ok" "solved_obj f NT init bv = fm"
      "solved_init f NT init bv = bi" "fm + tol_default < fmin"
      "\<forall>e \<in> set pre. solved_status f NT init (snd e) = ok \<longrightarrow> fm < solved_obj f NT init (snd e)"
      "\<forall>e \<in> set post. solved_status f NT init (snd e) = ok \<longrightarrow> fm \<le> solved_obj f NT init (snd e) + tol_default"
      unfolding scan_inv_True by blast
    have a: "\<exists>e \<in> set ?d. solved_status f NT init (snd e) = ok \<and>
                solved_obj f NT init (snd e) + tol_default < fmin"
    proof
      show "(bd, bv) \<in> set ?d" using p(1) by simp
      show "solved_status f NT init (snd (bd, bv)) = ok \<and>
            solved_obj f NT init (snd (bd, bv)) + tol_default < fmin"
        using p(2,3,5) by simp
    qed
    have b: "val fm < val fmin - val tol_default"
      using double_add_less_exact [OF p(5)] by simp
    have c: "\<forall>e \<in> set post. solved_status f NT init (snd e) = ok \<longrightarrow>
           \<not> solved_obj f NT init (snd e) + tol_default < fm"
      using p(7) by (auto simp: not_less)
    have "\<exists>pre post.
        ?d = pre @ (bd, bv) # post \<and>
        solved_status f NT init bv = ok \<and>
        fm = solved_obj f NT init bv \<and>
        bi = solved_init f NT init bv \<and>
        fm + tol_default < fmin \<and>
        val fm < val fmin - val tol_default \<and>
        (\<forall>e \<in> set pre. solved_status f NT init (snd e) = ok \<longrightarrow>
           fm < solved_obj f NT init (snd e)) \<and>
        (\<forall>e \<in> set post. solved_status f NT init (snd e) = ok \<longrightarrow>
           \<not> solved_obj f NT init (snd e) + tol_default < fm)"
      using p(1,2,3,4,5,6) b c by blast
    with res acc [symmetric] True a show ?thesis by blast
  qed
qed

lemma example_solver_values:
  "example_solver NT [4, 2] w = (int_double 2, ok, ())"
  "example_solver NT [3, 3] w = (int_double 4, ok, ())"
  "example_solver NT [2, 2] w = (int_double 2, solver_error, ())"
  "example_solver NT [3, 1] w = (int_double 0, ok, ())"
  "example_solver NT [1, 1] w = (int_double 4, ok, ())"
  "example_solver NT [2, 1] w = (int_double 1, ok, ())"
  "example_solver NT [4, 1] w = (int_double 1, ok, ())"
  by (simp_all add: example_solver_def)

lemma int_double_add_tol_less:
  assumes "\<bar>a\<bar> < 2 ^ 51" and "\<bar>b\<bar> < 2 ^ 53"
  shows "int_double a + tol_default < int_double b \<longleftrightarrow> a < b"
  unfolding int_double_def using assms by (rule int_add_tol_less)

lemma int_double_less:
  assumes "\<bar>a\<bar> < 2 ^ 53" and "\<bar>b\<bar> < 2 ^ 53"
  shows "int_double a < int_double b \<longleftrightarrow> a < b"
  using val_double_of_int [OF assms(1)] val_double_of_int [OF assms(2)]
  by (simp add: int_double_def less_double_val)

lemma example_evaluate:
  "evaluate_neighbors example_solver 5 (\<lambda>_. example_neighbors) 0 () (int_double 10) tol_default =
     Inr ((\<lambda>_. example_neighbors)(0 := [(1, [4, 2]), (2, [3, 3]), (3, [2, 2]), (4, [3, 1])]),
          (int_double 0, [3, 1], 4, (), True), [[4, 2], [3, 3], [2, 2], [3, 1]])"
  by (simp add: evaluate_neighbors_def example_neighbors_def example_solver_values keys_def
      int_double_add_tol_less)

theorem evaluate_neighbors_running_best_witness:
  "map_of example_neighbors 0 = Some [3, 2] \<and> distinct (keys example_neighbors) \<and>
   evaluate_neighbors example_solver 5 (\<lambda>_. example_neighbors) 0 () (int_double 10) tol_default =
     Inr ((\<lambda>_. example_neighbors)(0 := [(1, [4, 2]), (2, [3, 3]), (3, [2, 2]), (4, [3, 1])]),
          (int_double 0, [3, 1], 4, (), True), [[4, 2], [3, 3], [2, 2], [3, 1]]) \<and>
   (\<exists>e \<in> set (AList.delete 0 example_neighbors).
      solved_status example_solver 5 () (snd e) = ok \<and>
      solved_obj example_solver 5 () (snd e) + tol_default < int_double 10)"
proof -
  have a: "map_of ((\<lambda>_. example_neighbors) (0::nat)) 0 = Some [3, 2]"
    by (simp add: example_neighbors_def)
  have b: "distinct (keys ((\<lambda>_. example_neighbors) (0::nat)))"
    by (simp add: example_neighbors_def keys_def)
  from evaluate_neighbors_running_best [where h = "\<lambda>_. example_neighbors" and ext_vars = 0
      and f = example_solver and NT = 5 and init = "()" and fmin = "int_double 10", OF a b]
  have "\<exists>e \<in> set (AList.delete 0 example_neighbors).
      solved_status example_solver 5 () (snd e) = ok \<and>
      solved_obj example_solver 5 () (snd e) + tol_default < int_double 10"
    unfolding example_evaluate by blast
  with a b example_evaluate show ?thesis by simp
qed

lemma example_float_values:
  "val float_0_00781 = 9004316950979475 / 2 ^ 60"
  "val float_0_00782 = 4507923083012772 / 2 ^ 59"
proof -
  show "val float_0_00781 = 9004316950979475 / 2 ^ 60"
    unfolding float_0_00781_def val_double_of
    by (subst fl_normal [where k = 60]) (simp_all add: emin_def round_even_def Let_def)
  show "val float_0_00782 = 4507923083012772 / 2 ^ 59"
    unfolding float_0_00782_def val_double_of
    by (subst fl_normal [where k = 59]) (simp_all add: emin_def round_even_def Let_def)
qed

lemma example_float_values_2:
  "val float_0_032 = 4611686018427388 / 2 ^ 57"
  "val float_0_03201 = 4613127170308147 / 2 ^ 57"
proof -
  show "val float_0_032 = 4611686018427388 / 2 ^ 57"
    unfolding float_0_032_def val_double_of
    by (subst fl_normal [where k = 57]) (simp_all add: emin_def round_even_def Let_def)
  show "val float_0_03201 = 4613127170308147 / 2 ^ 57"
    unfolding float_0_03201_def val_double_of
    by (subst fl_normal [where k = 57]) (simp_all add: emin_def round_even_def Let_def)
qed

lemma example_float_sum_2: "float_0_032 + tol_default = float_0_03201"
proof -
  have "fl (4611686018427388 / 2 ^ 57 + 5902958103587057 / 2 ^ 69) = 4613127170308147 / 2 ^ 57"
    by (subst fl_normal [where k = 57]) (simp_all add: emin_def round_even_def Let_def)
  then have "val (float_0_032 + tol_default) = val float_0_03201"
    by (simp only: val_plus example_float_values_2 val_tol_default)
  then show ?thesis by (simp only: val_inject)
qed

text \<open>With \<open>fmin = 0.032010000000000004\<close> a neighbor of objective \<open>0.032\<close> is not
  accepted: the float sum \<open>0.032 + 0.00001\<close> is \<open>fmin\<close> itself, although the sum
  of the two reals is below \<open>fmin\<close>.\<close>

lemma example_evaluate_rounding:
  "evaluate_neighbors (example_flat_solver float_0_032) 5 example_store 0 () float_0_03201
       tol_default =
     Inr (example_store(0 := [(1, [4, 2]), (2, [3, 3]), (3, [2, 2]), (4, [3, 1])]),
          (float_0_03201, [3, 2], 0, (), False), [[4, 2], [3, 3], [2, 2], [3, 1]])"
  "val float_0_032 + val tol_default < val float_0_03201"
proof -
  show "evaluate_neighbors (example_flat_solver float_0_032) 5 example_store 0 () float_0_03201
       tol_default =
     Inr (example_store(0 := [(1, [4, 2]), (2, [3, 3]), (3, [2, 2]), (4, [3, 1])]),
          (float_0_03201, [3, 2], 0, (), False), [[4, 2], [3, 3], [2, 2], [3, 1]])"
    by (simp add: evaluate_neighbors_def example_store_def example_neighbors_def
        example_flat_solver_def keys_def example_float_sum_2)
  show "val float_0_032 + val tol_default < val float_0_03201"
    unfolding example_float_values_2 val_tol_default by simp
qed

lemma example_float_sum: "float_0_00781 + tol_default = float_0_00782"
proof -
  have "fl (9004316950979475 / 2 ^ 60 + 5902958103587057 / 2 ^ 69) = 4507923083012772 / 2 ^ 59"
    by (subst fl_normal [where k = 59]) (simp_all add: emin_def round_even_def Let_def)
  then have "val (float_0_00781 + tol_default) = val float_0_00782"
    by (simp only: val_plus example_float_values val_tol_default)
  then show ?thesis by (simp only: val_inject)
qed

text \<open>A line-search step towards a point of objective \<open>0.00781\<close> from
  \<open>fmin = 0.00782\<close> is not accepted either.\<close>

lemma example_move_rounding:
  "move_and_evaluate (example_flat_solver float_0_00781) 5 [2, 1] () float_0_00782 [1, 0] True
      dsda_min_allowed dsda_max_allowed tol_default =
     Inr ((float_0_00782, [2, 1], False, ()), [[3, 1]])"
  by (simp add: move_and_evaluate_def add_direction_def example_flat_solver_def
      dsda_min_allowed_def dsda_max_allowed_def upt_rec example_float_sum Let_def)

text \<open>
  The test of the code is not the test \<open>objective < fmin - tol\<close> of the claim.
  With \<open>fmin = 0.00782\<close> and a solver that returns the objective \<open>0.00781\<close> with
  status \<open>ok\<close> for every neighbor, the float sum \<open>0.00781 + 0.00001\<close> is \<open>0.00782\<close>
  itself, so that no neighbor is accepted and \<open>improve\<close> is \<open>False\<close>; yet
  \<open>0.00781\<close> is strictly below \<open>0.00782 - 0.00001\<close>, both over the reals and with
  the difference rounded to the nearest float.
\<close>

theorem evaluate_neighbors_counterexample:
  "evaluate_neighbors (example_flat_solver float_0_00781) 5 example_store 0 () float_0_00782 tol_default =
     Inr (example_store(0 := [(1, [4, 2]), (2, [3, 3]), (3, [2, 2]), (4, [3, 1])]),
          (float_0_00782, [3, 2], 0, (), False), [[4, 2], [3, 3], [2, 2], [3, 1]]) \<and>
   solved_status (example_flat_solver float_0_00781) 5 () [4, 2] = ok \<and>
   val (solved_obj (example_flat_solver float_0_00781) 5 () [4, 2]) < val float_0_00782 - val tol_default \<and>
   val (solved_obj (example_flat_solver float_0_00781) 5 () [4, 2]) <
     fl (val float_0_00782 - val tol_default)"
proof -
  have d: "fl (4507923083012772 / 2 ^ 59 - 5902958103587057 / 2 ^ 69) =
      9004316950979476 / 2 ^ 60"
    by (subst fl_normal [where k = 60]) (simp_all add: emin_def round_even_def Let_def)
  have 1: "evaluate_neighbors (example_flat_solver float_0_00781) 5 example_store 0 () float_0_00782
       tol_default =
     Inr (example_store(0 := [(1, [4, 2]), (2, [3, 3]), (3, [2, 2]), (4, [3, 1])]),
          (float_0_00782, [3, 2], 0, (), False), [[4, 2], [3, 3], [2, 2], [3, 1]])"
    by (simp add: evaluate_neighbors_def example_store_def example_neighbors_def
        example_flat_solver_def keys_def example_float_sum)
  have 2: "solved_status (example_flat_solver float_0_00781) 5 () [4, 2] = ok"
    by (simp add: solved_status_def example_flat_solver_def)
  have o: "solved_obj (example_flat_solver float_0_00781) 5 () [4, 2] = float_0_00781"
    by (simp add: solved_obj_def example_flat_solver_def)
  have 3: "val (solved_obj (example_flat_solver float_0_00781) 5 () [4, 2]) <
     val float_0_00782 - val tol_default"
    unfolding o example_float_values val_tol_default by simp
  have 4: "val (solved_obj (example_flat_solver float_0_00781) 5 () [4, 2]) <
     fl (val float_0_00782 - val tol_default)"
    unfolding o example_float_values val_tol_default d by simp
  from 1 2 3 4 show ?thesis by simp
qed

lemma scan_step_no_improve:
  "scan_step f NT init tol acc e = (fm, bv, bd, bi, False) \<Longrightarrow> acc = (fm, bv, bd, bi, False)"
  by (cases acc; cases "f NT (snd e) (Some init)") (auto simp: scan_step_def split: if_splits)

lemma foldl_scan_no_improve:
  "foldl (scan_step f NT init tol) acc es = (fm, bv, bd, bi, False) \<Longrightarrow>
     acc = (fm, bv, bd, bi, False)"
proof (induction es rule: rev_induct)
  case Nil
  then show ?case by simp
next
  case (snoc e es)
  from snoc.prems have "foldl (scan_step f NT init tol) acc es = (fm, bv, bd, bi, False)"
    by (simp add: scan_step_no_improve)
  then show ?case by (rule snoc.IH)
qed

text \<open>
  C10.  A call of \<open>evaluate_neighbors\<close> on a dict that contains key 0 returns
  normally and leaves the store changed at the caller's reference only: the dict
  there has lost key 0 and kept every other key, in order, with its vector
  (\<open>temp\<close> is a second name for the caller's dict, not a copy).  Every other dict
  of the store is unchanged.  When no neighbor improves, the returned best
  vector is the incumbent read under key 0 before the removal.
\<close>

theorem evaluate_neighbors_pops_key_0:
  assumes k0: "map_of (h ext_vars) 0 = Some v0" and wf: "distinct (keys (h ext_vars))"
  shows "\<exists>h' fm bv bd bi imp calls.
     evaluate_neighbors f NT h ext_vars init fmin tol =
       Inr (h', (fm, bv, bd, bi, imp), calls) \<and>
     h' ext_vars = AList.delete 0 (h ext_vars) \<and>
     0 \<notin> set (keys (h' ext_vars)) \<and>
     keys (h' ext_vars) = removeAll 0 (keys (h ext_vars)) \<and>
     (\<forall>k. k \<noteq> 0 \<longrightarrow> map_of (h' ext_vars) k = map_of (h ext_vars) k) \<and>
     (\<forall>r. r \<noteq> ext_vars \<longrightarrow> h' r = h r) \<and>
     (\<not> imp \<longrightarrow> bv = v0)"
proof -
  let ?d = "AList.delete 0 (h ext_vars)"
  let ?acc = "foldl (scan_step f NT init tol) (fmin, v0, 0, init, False) ?d"
  obtain fm bv bd bi imp where acc: "?acc = (fm, bv, bd, bi, imp)" by (cases ?acc)
  have res: "evaluate_neighbors f NT h ext_vars init fmin tol =
       Inr (h(ext_vars := ?d), (fm, bv, bd, bi, imp), map snd ?d)"
    by (simp only: evaluate_neighbors_result [where h = h and r = ext_vars, OF k0 wf] acc)
  have 1: "(h(ext_vars := ?d)) ext_vars = ?d" by simp
  have 2: "0 \<notin> set (keys ((h(ext_vars := ?d)) ext_vars))"
    by (simp add: keys_def delete_keys)
  have 3: "keys ((h(ext_vars := ?d)) ext_vars) = removeAll 0 (keys (h ext_vars))"
    by (simp add: keys_def delete_keys)
  have 4: "\<forall>k. k \<noteq> 0 \<longrightarrow> map_of ((h(ext_vars := ?d)) ext_vars) k = map_of (h ext_vars) k"
    by simp
  have 5: "\<forall>r. r \<noteq> ext_vars \<longrightarrow> (h(ext_vars := ?d)) r = h r" by simp
  have 6: "\<not> imp \<longrightarrow> bv = v0"
  proof
    assume "\<not> imp"
    with acc have "?acc = (fm, bv, bd, bi, False)" by simp
    from foldl_scan_no_improve [OF this] show "bv = v0" by simp
  qed
  from res 1 2 3 4 5 6 show ?thesis by blast
qed

theorem evaluate_neighbors_pops_key_0_witness:
  "map_of example_neighbors 0 = Some [3, 2] \<and> distinct (keys example_neighbors) \<and>
   (\<exists>h' res calls.
      evaluate_neighbors example_solver 5 (\<lambda>_. example_neighbors) 7 () (int_double 0) tol_default =
        Inr (h', res, calls) \<and>
      h' 7 = [(1, [4, 2]), (2, [3, 3]), (3, [2, 2]), (4, [3, 1])] \<and>
      fst (snd res) = [3, 2])"
proof -
  have a: "map_of ((\<lambda>_. example_neighbors) (7::nat)) 0 = Some [3, 2]"
    by (simp add: example_neighbors_def)
  have b: "distinct (keys ((\<lambda>_. example_neighbors) (7::nat)))"
    by (simp add: example_neighbors_def keys_def)
  have c: "AList.delete 0 example_neighbors = [(1, [4, 2]), (2, [3, 3]), (3, [2, 2]), (4, [3, 1])]"
    by (simp add: example_neighbors_def)
  have d: "evaluate_neighbors example_solver 5 (\<lambda>_. example_neighbors) 7 () (int_double 0) tol_default =
     Inr ((\<lambda>_. example_neighbors)(7 := [(1, [4, 2]), (2, [3, 3]), (3, [2, 2]), (4, [3, 1])]),
          (int_double 0, [3, 2], 0, (), False), [[4, 2], [3, 3], [2, 2], [3, 1]])"
    by (simp add: evaluate_neighbors_def example_neighbors_def example_solver_values keys_def
        int_double_add_tol_less)
  from evaluate_neighbors_pops_key_0 [where h = "\<lambda>_. example_neighbors" and ext_vars = 7
      and f = example_solver and NT = 5 and init = "()" and fmin = "int_double 0" and tol = tol_default,
      OF a b]
  have "\<exists>h' res calls.
      evaluate_neighbors example_solver 5 (\<lambda>_. example_neighbors) 7 () (int_double 0) tol_default =
        Inr (h', res, calls) \<and>
      h' 7 = [(1, [4, 2]), (2, [3, 3]), (3, [2, 2]), (4, [3, 1])] \<and>
      fst (snd res) = [3, 2]"
    unfolding d c by auto
  with a b show ?thesis by simp
qed

section \<open>Solves that do not return \<open>ok\<close>\<close>

lemma scan_neighbors_skip:
  assumes "map_of (h temp) i = Some x" and "solved_status f NT init x \<noteq> ok"
  shows "scan_neighbors f NT h ext_vars temp init tol (i # is) (acc, calls) =
         scan_neighbors f NT h ext_vars temp init tol is (acc, calls @ [x])"
proof -
  obtain fm bv bd bi imp where acc: "acc = (fm, bv, bd, bi, imp)" by (cases acc)
  obtain ao st ni where r: "f NT x (Some init) = (ao, st, ni)" by (cases "f NT x (Some init)")
  from assms(2) r have "st \<noteq> ok" by (simp add: solved_status_def)
  with assms(1) r show ?thesis by (simp add: acc)
qed

lemma move_and_evaluate_not_ok:
  assumes "solved_status f NT init (add_direction start direction) \<noteq> ok"
  shows "move_and_evaluate f NT start init fmin direction False mn mx tol =
           Inr ((fmin, start, False, init), [add_direction start direction])"
    and "count_checked (add_direction start direction) mn mx
            [0..<length (add_direction start direction)] 0 = Inr c \<Longrightarrow>
         move_and_evaluate f NT start init fmin direction True mn mx tol =
           Inr ((fmin, start, False, init),
                if c = length (add_direction start direction)
                then [add_direction start direction] else [])"
proof -
  let ?p = "add_direction start direction"
  obtain ao st ni where r: "f NT ?p (Some init) = (ao, st, ni)" by (cases "f NT ?p (Some init)")
  from assms r have st: "st \<noteq> ok" by (simp add: solved_status_def)
  show "move_and_evaluate f NT start init fmin direction False mn mx tol =
           Inr ((fmin, start, False, init), [?p])"
    using r st by (simp add: move_and_evaluate_def)
  show "move_and_evaluate f NT start init fmin direction True mn mx tol =
           Inr ((fmin, start, False, init), if c = length ?p then [?p] else [])"
    if "count_checked ?p mn mx [0..<length ?p] 0 = Inr c"
    using that r st by (simp add: move_and_evaluate_def)
qed

lemma move_and_evaluate_moved:
  assumes "move_and_evaluate f NT start init fmin direction optimize mn mx tol =
             Inr ((fm, bv, True, bi), calls)"
  shows "bv = add_direction start direction" and "solved_status f NT init bv = ok"
    and "fm = solved_obj f NT init bv" and "bi = solved_init f NT init bv"
    and "optimize \<Longrightarrow> fm + tol < fmin" and "\<not> optimize \<Longrightarrow> fm < fmin"
    and "calls = [bv]"
  using assms
  by (auto simp: move_and_evaluate_def Let_def solved_status_def solved_obj_def solved_init_def
      split: sum.splits if_splits prod.splits)

text \<open>
  C8.  A solve whose status is not \<open>ok\<close> never updates the incumbent and never
  stops the search.  In the loop of \<open>evaluate_neighbors\<close> the pass for such a
  neighbor leaves \<open>fmin\<close>, the best vector, direction, initialization and the
  flag \<open>improve\<close> as they were and goes on with the remaining keys.  In
  \<open>move_and_evaluate\<close> (with or without \<open>optimize\<close>, provided the bound check
  itself raised nothing) such a step returns normally with \<open>moved = False\<close> and
  the incoming \<open>fmin\<close>, start vector and initialization.  Conversely a neighbor
  returned with \<open>improve = True\<close>, and a point returned with \<open>moved = True\<close>, was
  solved with status \<open>ok\<close>.
\<close>

theorem non_ok_solve_never_selected:
  "(map_of (h temp) i = Some x \<and> solved_status f NT init x \<noteq> ok \<longrightarrow>
      scan_neighbors f NT h ext_vars temp init tol (i # ks) (acc, calls) =
      scan_neighbors f NT h ext_vars temp init tol ks (acc, calls @ [x])) \<and>
   (solved_status f NT init (add_direction start direction) \<noteq> ok \<longrightarrow>
      move_and_evaluate f NT start init fmin direction False mn mx tol =
        Inr ((fmin, start, False, init), [add_direction start direction]) \<and>
      (\<forall>c. count_checked (add_direction start direction) mn mx
              [0..<length (add_direction start direction)] 0 = Inr c \<longrightarrow>
           move_and_evaluate f NT start init fmin direction True mn mx tol =
             Inr ((fmin, start, False, init),
                  if c = length (add_direction start direction)
                  then [add_direction start direction] else []))) \<and>
   (map_of (h1 ext_vars1) 0 = Some v0 \<and> distinct (keys (h1 ext_vars1)) \<and>
    evaluate_neighbors f NT h1 ext_vars1 init fmin1 tol_default =
      Inr (h1', (fm1, bv1, bd1, bi1, True), calls1) \<longrightarrow>
      solved_status f NT init bv1 = ok) \<and>
   (move_and_evaluate f NT start2 init fmin2 direction2 optimize mn2 mx2 tol2 =
      Inr ((fm2, bv2, True, bi2), calls2) \<longrightarrow>
      solved_status f NT init bv2 = ok)"
proof (intro conjI impI allI)
  assume "map_of (h temp) i = Some x \<and> solved_status f NT init x \<noteq> ok"
  then show "scan_neighbors f NT h ext_vars temp init tol (i # ks) (acc, calls) =
      scan_neighbors f NT h ext_vars temp init tol ks (acc, calls @ [x])"
    by (simp add: scan_neighbors_skip)
next
  assume "solved_status f NT init (add_direction start direction) \<noteq> ok"
  then show "move_and_evaluate f NT start init fmin direction False mn mx tol =
        Inr ((fmin, start, False, init), [add_direction start direction])"
    by (rule move_and_evaluate_not_ok(1))
next
  fix c
  assume "solved_status f NT init (add_direction start direction) \<noteq> ok"
    and "count_checked (add_direction start direction) mn mx
              [0..<length (add_direction start direction)] 0 = Inr c"
  then show "move_and_evaluate f NT start init fmin direction True mn mx tol =
             Inr ((fmin, start, False, init),
                  if c = length (add_direction start direction)
                  then [add_direction start direction] else [])"
    by (rule move_and_evaluate_not_ok(2))
next
  assume a: "map_of (h1 ext_vars1) 0 = Some v0 \<and> distinct (keys (h1 ext_vars1)) \<and>
    evaluate_neighbors f NT h1 ext_vars1 init fmin1 tol_default =
      Inr (h1', (fm1, bv1, bd1, bi1, True), calls1)"
  let ?d = "AList.delete 0 (h1 ext_vars1)"
  note tol = tol_default_nonneg
  from a have k0: "map_of (h1 ext_vars1) 0 = Some v0" and wf: "distinct (keys (h1 ext_vars1))"
    by simp_all
  from a have "foldl (scan_step f NT init tol_default) (fmin1, v0, 0, init, False) ?d =
      (fm1, bv1, bd1, bi1, True)"
    by (simp add: evaluate_neighbors_result [where h = h1 and r = ext_vars1, OF k0 wf])
  with scan_inv_foldl [OF tol, of f NT init fmin1 v0 ?d]
  have "scan_inv f NT init tol_default fmin1 v0 ?d (fm1, bv1, bd1, bi1, True)" by simp
  then show "solved_status f NT init bv1 = ok"
    unfolding scan_inv_True by blast
next
  assume "move_and_evaluate f NT start2 init fmin2 direction2 optimize mn2 mx2 tol2 =
      Inr ((fm2, bv2, True, bi2), calls2)"
  then show "solved_status f NT init bv2 = ok"
    by (rule move_and_evaluate_moved(2))
qed

lemma example_move_fail:
  "move_and_evaluate example_solver 5 [2, 1] () (int_double 10) [0, 1] True
      dsda_min_allowed dsda_max_allowed tol_default = Inr ((int_double 10, [2, 1], False, ()), [[2, 2]])"
  by (simp add: move_and_evaluate_def add_direction_def example_solver_values
      dsda_min_allowed_def dsda_max_allowed_def upt_rec)

lemma example_move_ok:
  "move_and_evaluate example_solver 5 [2, 1] () (int_double 10) [1, 0] True
      dsda_min_allowed dsda_max_allowed tol_default = Inr ((int_double 0, [3, 1], True, ()), [[3, 1]])"
  by (simp add: move_and_evaluate_def add_direction_def example_solver_values
      dsda_min_allowed_def dsda_max_allowed_def upt_rec int_double_add_tol_less Let_def)

theorem non_ok_solve_never_selected_witness:
  "solved_status example_solver 5 () [2, 2] \<noteq> ok \<and>
   scan_neighbors example_solver 5 (\<lambda>_. example_neighbors) 0 0 () tol_default [3, 4]
       ((int_double 10, [3, 2], 0, (), False), []) =
     scan_neighbors example_solver 5 (\<lambda>_. example_neighbors) 0 0 () tol_default [4]
       ((int_double 10, [3, 2], 0, (), False), [[2, 2]]) \<and>
   move_and_evaluate example_solver 5 [2, 1] () (int_double 10) [0, 1] True
       dsda_min_allowed dsda_max_allowed tol_default = Inr ((int_double 10, [2, 1], False, ()), [[2, 2]]) \<and>
   move_and_evaluate example_solver 5 [2, 1] () (int_double 10) [1, 0] True
       dsda_min_allowed dsda_max_allowed tol_default = Inr ((int_double 0, [3, 1], True, ()), [[3, 1]]) \<and>
   solved_status example_solver 5 () [3, 1] = ok"
proof -
  have st: "solved_status example_solver 5 () [2, 2] \<noteq> ok"
    by (simp add: solved_status_def example_solver_def)
  have l: "map_of ((\<lambda>_. example_neighbors) (0::nat)) 3 = Some [2, 2]"
    by (simp add: example_neighbors_def)
  have ad: "add_direction [2, 1] [0, 1] = [2, 2]"
    by (simp add: add_direction_def)
  have cc: "count_checked [2, 2] dsda_min_allowed dsda_max_allowed [0..<length [2, 2 :: int]] 0 = Inr 2"
    by (simp add: dsda_min_allowed_def dsda_max_allowed_def upt_rec)
  have k0: "map_of ((\<lambda>_. example_neighbors) (0::nat)) 0 = Some [3, 2]"
    by (simp add: example_neighbors_def)
  have wf: "distinct (keys ((\<lambda>_. example_neighbors) (0::nat)))"
    by (simp add: example_neighbors_def keys_def)
  have ev: "evaluate_neighbors example_solver 5 (\<lambda>_. example_neighbors) 0 () (int_double 10) tol_default =
     Inr ((\<lambda>_. example_neighbors)(0 := [(1, [4, 2]), (2, [3, 3]), (3, [2, 2]), (4, [3, 1])]),
          (int_double 0, [3, 1], 4, (), True), [[4, 2], [3, 3], [2, 2], [3, 1]])"
    by (simp add: evaluate_neighbors_def example_neighbors_def example_solver_values keys_def
        int_double_add_tol_less)
  note t = non_ok_solve_never_selected [where f = example_solver and NT = 5 and init = "()"
      and h = "\<lambda>_. example_neighbors" and temp = 0 and ext_vars = 0 and i = 3 and x = "[2, 2]"
      and ks = "[4]" and acc = "(int_double 10, [3, 2], 0, (), False)" and calls = "[]"
      and tol = tol_default and start = "[2, 1]" and direction = "[0, 1]" and fmin = "int_double 10"
      and mn = dsda_min_allowed and mx = dsda_max_allowed
      and ?h1.0 = "\<lambda>_. example_neighbors" and ?ext_vars1.0 = 0 and ?v0.0 = "[3, 2]"
      and ?fmin1.0 = "int_double 10"
      and ?h1' = "(\<lambda>_. example_neighbors)(0 := [(1, [4, 2]), (2, [3, 3]), (3, [2, 2]), (4, [3, 1])])"
      and ?fm1.0 = "int_double 0" and ?bv1.0 = "[3, 1]" and ?bd1.0 = 4 and ?bi1.0 = "()"
      and ?calls1.0 = "[[4, 2], [3, 3], [2, 2], [3, 1]]"
      and ?start2.0 = "[2, 1]" and ?fmin2.0 = "int_double 10" and ?direction2.0 = "[1, 0]" and optimize = True
      and ?mn2.0 = dsda_min_allowed and ?mx2.0 = dsda_max_allowed and ?tol2.0 = tol_default
      and ?fm2.0 = "int_double 0" and ?bv2.0 = "[3, 1]" and ?bi2.0 = "()" and ?calls2.0 = "[[3, 1]]"]
  from t st l have 1: "scan_neighbors example_solver 5 (\<lambda>_. example_neighbors) 0 0 () tol_default [3, 4]
       ((int_double 10, [3, 2], 0, (), False), []) =
     scan_neighbors example_solver 5 (\<lambda>_. example_neighbors) 0 0 () tol_default [4]
       ((int_double 10, [3, 2], 0, (), False), [[2, 2]])"
    by simp
  from t st ad cc have 2: "move_and_evaluate example_solver 5 [2, 1] () (int_double 10) [0, 1] True
       dsda_min_allowed dsda_max_allowed tol_default = Inr ((int_double 10, [2, 1], False, ()), [[2, 2]])"
    by simp
  from t k0 wf ev have 3: "solved_status example_solver 5 () [3, 1] = ok"
    by simp
  from t example_move_ok have 4: "solved_status example_solver 5 () [3, 1] = ok"
    by simp
  from st 1 2 3 4 example_move_ok show ?thesis by simp
qed

section \<open>The bound check\<close>

lemma in_box_coord: "in_box mn mx v \<longleftrightarrow> (\<forall>p < length v. coord_ok mn mx v p)"
  by (auto simp: in_box_def list_all_iff)

lemma count_checked_bound:
  "count_checked v mn mx js c = Inr c' \<Longrightarrow> c \<le> c' \<and> c' \<le> c + length js"
proof (induction js arbitrary: c)
  case Nil
  then show ?case by simp
next
  case (Cons j js)
  from Cons.prems show ?case
    by (auto split: if_splits option.splits dest!: Cons.IH)
qed

lemma count_checked_full:
  "count_checked v mn mx js c = Inr (c + length js) \<Longrightarrow>
     (\<forall>j \<in> set js. j < length v \<and> coord_ok mn mx v j)"
proof (induction js arbitrary: c)
  case Nil
  then show ?case by simp
next
  case (Cons j js)
  from Cons.prems have len: "j < length v"
    by (auto split: if_splits)
  from Cons.prems len obtain lo where lo: "mn (int j + 1) = Some lo"
    by (auto split: option.splits)
  show ?case
  proof (cases "lo \<le> v ! j")
    case False
    with Cons.prems len lo have "count_checked v mn mx js c = Inr (c + length (j # js))"
      by simp
    from count_checked_bound [OF this] show ?thesis by simp
  next
    case True
    with Cons.prems len lo obtain hi where hi: "mx (int j + 1) = Some hi"
      by (auto split: option.splits)
    show ?thesis
    proof (cases "v ! j \<le> hi")
      case False
      with Cons.prems len lo hi True have "count_checked v mn mx js c = Inr (c + length (j # js))"
        by simp
      from count_checked_bound [OF this] show ?thesis by simp
    next
      case le: True
      with Cons.prems len lo hi True have "count_checked v mn mx js (c + 1) = Inr (c + 1 + length js)"
        by simp
      from Cons.IH [OF this] len lo hi True le show ?thesis
        by (simp add: coord_ok_def)
    qed
  qed
qed

lemma count_checked_in_box:
  assumes "count_checked v mn mx [0..<n] 0 = Inr n"
  shows "n \<le> length v" and "\<forall>p < n. coord_ok mn mx v p"
proof -
  from assms have "count_checked v mn mx [0..<n] 0 = Inr (0 + length [0..<n])" by simp
  from count_checked_full [OF this] have *: "\<forall>j < n. j < length v \<and> coord_ok mn mx v j" by simp
  then show "\<forall>p < n. coord_ok mn mx v p" by simp
  show "n \<le> length v"
  proof (cases n)
    case 0
    then show ?thesis by simp
  next
    case (Suc k)
    with * have "k < length v" by simp
    with Suc show ?thesis by simp
  qed
qed

lemma count_checked_defined:
  assumes "\<forall>j \<in> set js. j < length v \<and> mn (int j + 1) \<noteq> None \<and> mx (int j + 1) \<noteq> None"
  shows "\<exists>c'. count_checked v mn mx js c = Inr c'"
  using assms
proof (induction js arbitrary: c)
  case Nil
  then show ?case by simp
next
  case (Cons j js)
  then show ?case by (auto split: option.splits)
qed

lemma count_checked_all_ok:
  assumes "\<forall>j \<in> set js. j < length v \<and> coord_ok mn mx v j"
  shows "count_checked v mn mx js c = Inr (c + length js)"
  using assms
proof (induction js arbitrary: c)
  case Nil
  then show ?case by simp
next
  case (Cons j js)
  then show ?case by (auto simp: coord_ok_def split: option.splits)
qed

lemma dsda_bounds_coord:
  "coord_ok dsda_min_allowed dsda_max_allowed v p \<longleftrightarrow> p < 2 \<and> 1 \<le> v ! p \<and> v ! p \<le> 5"
proof -
  have "p = 0 \<or> p = 1 \<or> 2 \<le> p" by arith
  then show ?thesis
    by (auto simp: coord_ok_def dsda_min_allowed_def dsda_max_allowed_def)
qed

lemma dsda_bounds_defined:
  "p < 2 \<Longrightarrow> dsda_min_allowed (int p + 1) \<noteq> None \<and> dsda_max_allowed (int p + 1) \<noteq> None"
proof -
  assume "p < 2"
  then have "p = 0 \<or> p = 1" by arith
  then show ?thesis
    by (auto simp: dsda_min_allowed_def dsda_max_allowed_def)
qed

section \<open>The filters of \<open>my_neighbors\<close>\<close>

lemma update_fresh: "k \<notin> fst ` set d \<Longrightarrow> AList.update k v d = d @ [(k, v)]"
  by (induction d) auto

lemma passes_pair: "passes n mn mx (i, v) \<longleftrightarrow> count_checked v mn mx [0..<n] 0 = Inr n"
  by (simp add: passes_def)

lemma filter_bounds_filter:
  assumes "filter_bounds n mn mx d new = Inr r"
    and "distinct (map fst d)" and "fst ` set new \<inter> fst ` set d = {}"
  shows "r = new @ filter (passes n mn mx) d"
  using assms
proof (induction d arbitrary: new)
  case Nil
  then show ?case by simp
next
  case (Cons e d)
  obtain i v where e: "e = (i, v)" by (cases e)
  from Cons.prems(1) obtain c where c: "count_checked v mn mx [0..<n] 0 = Inr c"
    by (auto simp: e split: sum.splits)
  let ?new = "if c = n then AList.update i v new else new"
  from Cons.prems(1) c have r: "filter_bounds n mn mx d ?new = Inr r"
    by (simp add: e)
  from Cons.prems(3) have fresh: "i \<notin> fst ` set new" by (auto simp: e)
  have new: "?new = (if c = n then new @ [(i, v)] else new)"
    using fresh by (simp add: update_fresh)
  have disj: "fst ` set ?new \<inter> fst ` set d = {}"
    using Cons.prems(2,3) by (auto simp: e new)
  from Cons.prems(2) have dist: "distinct (map fst d)" by simp
  from Cons.IH [OF r dist disj] have "r = ?new @ filter (passes n mn mx) d" .
  then show ?case
    using c by (auto simp: e new passes_pair)
qed

lemma cheating_filter_filter:
  assumes "cheating_filter ks d = Inr r" and "distinct (map fst d)"
  shows "r = filter (not_above ks) d \<and>
         (\<forall>e \<in> set d. fst e \<in> set ks \<longrightarrow> 2 \<le> length (snd e))"
  using assms
proof (induction ks arbitrary: d)
  case Nil
  then show ?case by (simp add: not_above_def)
next
  case (Cons i ks)
  from Cons.prems(1) obtain v where v: "map_of d i = Some v"
    by (auto split: option.splits)
  from Cons.prems(1) v have len: "2 \<le> length v"
    by (auto split: if_splits)
  let ?d = "if v ! 1 - v ! 0 > 0 then AList.delete i d else d"
  from Cons.prems(1) v len have r: "cheating_filter ks ?d = Inr r"
    by (simp split: if_splits)
  have dist: "distinct (map fst ?d)"
    using Cons.prems(2) by (simp add: distinct_delete)
  from Cons.IH [OF r dist]
  have ih: "r = filter (not_above ks) ?d"
    and ihl: "\<forall>e \<in> set ?d. fst e \<in> set ks \<longrightarrow> 2 \<le> length (snd e)" by simp_all
  have uniq: "\<And>e. e \<in> set d \<Longrightarrow> fst e = i \<Longrightarrow> snd e = v"
    using Cons.prems(2) v by (metis map_of_is_SomeI option.inject prod.collapse)
  have 1: "filter (not_above ks) ?d = filter (not_above (i # ks)) d"
  proof (cases "v ! 1 - v ! 0 > 0")
    case True
    have "filter (not_above ks) (AList.delete i d) = filter (not_above (i # ks)) d"
      unfolding AList.delete_eq filter_filter
    proof (rule filter_cong [OF refl])
      fix e assume "e \<in> set d"
      with uniq [of e] True
      show "((case e of (k', _) \<Rightarrow> i \<noteq> k') \<and> not_above ks e) = not_above (i # ks) e"
        by (cases e) (auto simp: not_above_def)
    qed
    with True show ?thesis by simp
  next
    case False
    have "filter (not_above ks) d = filter (not_above (i # ks)) d"
    proof (rule filter_cong [OF refl])
      fix e assume "e \<in> set d"
      with uniq [of e] False
      show "not_above ks e = not_above (i # ks) e"
        by (cases e) (auto simp: not_above_def)
    qed
    with False show ?thesis by simp
  qed
  have 2: "\<forall>e \<in> set d. fst e \<in> set (i # ks) \<longrightarrow> 2 \<le> length (snd e)"
  proof (intro ballI impI)
    fix e assume e: "e \<in> set d" and k: "fst e \<in> set (i # ks)"
    show "2 \<le> length (snd e)"
    proof (cases "fst e = i")
      case True
      with uniq [OF e] len show ?thesis by simp
    next
      case False
      with e have "e \<in> set ?d" by (cases e) (auto simp: AList.delete_eq)
      with ihl k False show ?thesis by auto
    qed
  qed
  from ih 1 2 show ?case by simp
qed

lemma add_neighbors_append:
  assumes "distinct (map fst nbh)" and "fst ` set acc \<inter> fst ` set nbh = {}"
  shows "add_neighbors start nbh acc = acc @ map (\<lambda>(i, d). (i, add_direction start d)) nbh"
  using assms
proof (induction nbh arbitrary: acc)
  case Nil
  then show ?case by simp
next
  case (Cons e nbh)
  obtain i d where e: "e = (i, d)" by (cases e)
  from Cons.prems(2) have fresh: "i \<notin> fst ` set acc" by (auto simp: e)
  have disj: "fst ` set (acc @ [(i, add_direction start d)]) \<inter> fst ` set nbh = {}"
    using Cons.prems by (auto simp: e)
  from Cons.prems(1) have dist: "distinct (map fst nbh)" by simp
  show ?case
    using Cons.IH [OF dist disj] fresh by (simp add: e update_fresh)
qed

lemma not_above_all:
  "filter (not_above (map fst d)) d = filter (\<lambda>e. \<not> (snd e ! 1 - snd e ! 0 > 0)) d"
  by (rule filter_cong [OF refl]) (auto simp: not_above_def)

lemma length_add_direction: "length (add_direction start d) \<le> length start"
  by (simp add: add_direction_def)

lemma my_neighbors_entries:
  assumes res: "my_neighbors start nbh True mn mx True = Inr r"
    and dist: "distinct (map fst nbh)" and no0: "0 \<notin> fst ` set nbh"
  shows "distinct (map fst r)"
    and "\<forall>e \<in> set r. in_box mn mx (snd e) \<and> length (snd e) = length start \<and>
            2 \<le> length (snd e) \<and> snd e ! 1 \<le> snd e ! 0 \<and>
            (e = (0, start) \<or> (fst e \<noteq> 0 \<and> (\<exists>d. (fst e, d) \<in> set nbh \<and> snd e = add_direction start d)))"
proof -
  let ?all = "(0, start) # map (\<lambda>(i, d). (i, add_direction start d)) nbh"
  have keys_all: "map fst ?all = 0 # map fst nbh"
    by (simp add: comp_def case_prod_beta)
  have an: "add_neighbors start nbh [(0, start)] = ?all"
    using add_neighbors_append [OF dist, of "[(0, start)]" start] no0 by simp
  have dall: "distinct (map fst ?all)"
    unfolding keys_all using dist no0 by simp
  have m0: "map_of ?all 0 = Some start" by simp
  from res obtain new where fb: "filter_bounds (length start) mn mx ?all [] = Inr new"
    and cf: "cheating_filter (keys new) new = Inr r"
    unfolding my_neighbors_def Let_def an m0 by (auto split: sum.splits)
  from filter_bounds_filter [OF fb dall] have new: "new = filter (passes (length start) mn mx) ?all"
    by simp
  have dnew: "distinct (map fst new)"
    unfolding new using dall by (rule distinct_map_filter)
  from cheating_filter_filter [OF cf dnew]
  have r: "r = filter (\<lambda>e. \<not> (snd e ! 1 - snd e ! 0 > 0)) new"
    and len: "\<forall>e \<in> set new. 2 \<le> length (snd e)"
    by (simp_all add: keys_def not_above_all)
  show "distinct (map fst r)"
    unfolding r using dnew by (rule distinct_map_filter)
  show "\<forall>e \<in> set r. in_box mn mx (snd e) \<and> length (snd e) = length start \<and>
            2 \<le> length (snd e) \<and> snd e ! 1 \<le> snd e ! 0 \<and>
            (e = (0, start) \<or> (fst e \<noteq> 0 \<and> (\<exists>d. (fst e, d) \<in> set nbh \<and> snd e = add_direction start d)))"
  proof
    fix e assume "e \<in> set r"
    with r have enew: "e \<in> set new" and ch: "snd e ! 1 \<le> snd e ! 0" by auto
    from enew have "e \<in> set (filter (passes (length start) mn mx) ?all)"
      unfolding new .
    then have eall: "e \<in> set ?all" and p: "passes (length start) mn mx e"
      by (simp_all only: set_filter mem_Collect_eq)
    from eall have orig: "e = (0, start) \<or>
        (fst e \<noteq> 0 \<and> (\<exists>d. (fst e, d) \<in> set nbh \<and> snd e = add_direction start d))"
    proof (cases "e = (0, start)")
      case True
      then show ?thesis by simp
    next
      case False
      with eall have "e \<in> set (map (\<lambda>(i, d). (i, add_direction start d)) nbh)" by simp
      then obtain i d where id: "(i, d) \<in> set nbh" and e: "e = (i, add_direction start d)"
        by auto
      from id no0 have "i \<noteq> 0" by force
      with id e show ?thesis by auto
    qed
    then have le: "length (snd e) \<le> length start"
      by (auto simp: length_add_direction)
    from p have cc: "count_checked (snd e) mn mx [0..<length start] 0 = Inr (length start)"
      by (simp add: passes_def)
    from count_checked_in_box [OF cc] le
    have leq: "length (snd e) = length start" and ok: "\<forall>p < length start. coord_ok mn mx (snd e) p"
      by simp_all
    from ok leq have "in_box mn mx (snd e)" by (simp add: in_box_coord)
    with leq len enew ch orig
    show "in_box mn mx (snd e) \<and> length (snd e) = length start \<and>
            2 \<le> length (snd e) \<and> snd e ! 1 \<le> snd e ! 0 \<and>
            (e = (0, start) \<or> (fst e \<noteq> 0 \<and> (\<exists>d. (fst e, d) \<in> set nbh \<and> snd e = add_direction start d)))"
      by blast
  qed
qed

section \<open>The steps of the driver\<close>

lemma explore_step_result:
  assumes step: "explore_step f NT s = Inr s'"
    and nb: "st_neighborhood s = Some nbh"
    and dist: "distinct (map fst nbh)" and no0: "0 \<notin> fst ` set nbh"
  shows "\<exists>r fm bv bd bi imp.
    my_neighbors (st_ext_var s) nbh True dsda_min_allowed dsda_max_allowed True = Inr r \<and>
    map_of r 0 = Some (st_ext_var s) \<and>
    scan_inv f NT (st_init s) tol_default (st_fmin s) (st_ext_var s) (AList.delete 0 r)
      (fm, bv, bd, bi, imp) \<and>
    s' = s\<lparr> st_store := (st_store s)(st_next_ref s := AList.delete 0 r),
            st_neighbors := st_next_ref s,
            st_next_ref := Suc (st_next_ref s),
            st_fmin := fm,
            st_best_var := bv,
            st_best_dir := bd,
            st_best_init := bi,
            solver_log := solver_log s @ map snd (AList.delete 0 r),
            st_route := (if imp then st_route s @ [bv] else st_route s),
            fmin_log := (if imp then fmin_log s @ [fm] else fmin_log s),
            st_phase := (if imp then LINE_SEARCH else DONE) \<rparr>"
proof -
  let ?n = "st_next_ref s"
  from step nb obtain r where
    r: "my_neighbors (st_ext_var s) nbh True dsda_min_allowed dsda_max_allowed True = Inr r"
    by (auto simp: explore_step_def split: sum.splits)
  let ?h = "(st_store s)(?n := r)"
  let ?d = "AList.delete 0 r"
  from step nb r obtain res where
    ev: "evaluate_neighbors f NT ?h ?n (st_init s) (st_fmin s) tol_default = Inr res"
    by (auto simp: explore_step_def Let_def split: sum.splits)
  then obtain v0 where v0: "map_of r 0 = Some v0"
    by (auto simp: evaluate_neighbors_def split: option.splits)
  note ent = my_neighbors_entries [OF r dist no0]
  from v0 have "(0, v0) \<in> set r" by (rule map_of_SomeD)
  with ent(2) have "v0 = st_ext_var s" by fastforce
  with v0 have k0: "map_of (?h ?n) 0 = Some (st_ext_var s)" by simp
  have wf: "distinct (keys (?h ?n))" using ent(1) by (simp add: keys_def)
  let ?acc = "foldl (scan_step f NT (st_init s) tol_default)
                (st_fmin s, st_ext_var s, 0, st_init s, False) ?d"
  obtain fm bv bd bi imp where acc: "?acc = (fm, bv, bd, bi, imp)" by (cases ?acc)
  have ev': "evaluate_neighbors f NT ?h ?n (st_init s) (st_fmin s) tol_default =
      Inr (?h(?n := ?d), (fm, bv, bd, bi, imp), map snd ?d)"
  proof -
    have hd: "?h ?n = r" by simp
    have upd: "?h(?n := ?d) = (st_store s)(?n := ?d)" by simp
    have "evaluate_neighbors f NT ?h ?n (st_init s) (st_fmin s) tol_default =
      Inr (?h(?n := AList.delete 0 (?h ?n)),
           foldl (scan_step f NT (st_init s) tol_default)
             (st_fmin s, st_ext_var s, 0, st_init s, False) (AList.delete 0 (?h ?n)),
           map snd (AList.delete 0 (?h ?n)))"
      by (rule evaluate_neighbors_result [where h = "?h" and r = "?n", OF k0 wf])
    then show ?thesis
      unfolding hd upd acc .
  qed
  note tol = tol_default_nonneg
  have inv: "scan_inv f NT (st_init s) tol_default (st_fmin s) (st_ext_var s) ?d (fm, bv, bd, bi, imp)"
    using scan_inv_foldl [OF tol, of f NT "st_init s" "st_fmin s" "st_ext_var s" ?d] acc by simp
  have s': "s' = s\<lparr> st_store := (st_store s)(?n := ?d),
            st_neighbors := ?n,
            st_next_ref := Suc ?n,
            st_fmin := fm,
            st_best_var := bv,
            st_best_dir := bd,
            st_best_init := bi,
            solver_log := solver_log s @ map snd ?d,
            st_route := (if imp then st_route s @ [bv] else st_route s),
            fmin_log := (if imp then fmin_log s @ [fm] else fmin_log s),
            st_phase := (if imp then LINE_SEARCH else DONE) \<rparr>"
    using step nb r ev' by (cases imp) (simp_all add: explore_step_def Let_def)
  from k0 have k0r: "map_of r 0 = Some (st_ext_var s)" by simp
  from r k0r inv s' show ?thesis by blast
qed

lemma dsda_count_checked:
  assumes "length v \<le> 2"
  shows "\<exists>c. count_checked v dsda_min_allowed dsda_max_allowed [0..<length v] 0 = Inr c \<and>
             (c = length v \<longleftrightarrow> in_box dsda_min_allowed dsda_max_allowed v)"
proof -
  have "\<forall>j \<in> set [0..<length v]. j < length v \<and> dsda_min_allowed (int j + 1) \<noteq> None \<and>
          dsda_max_allowed (int j + 1) \<noteq> None"
    using assms dsda_bounds_defined by auto
  from count_checked_defined [OF this, of 0] obtain c where
    c: "count_checked v dsda_min_allowed dsda_max_allowed [0..<length v] 0 = Inr c" by blast
  have "c = length v \<longleftrightarrow> in_box dsda_min_allowed dsda_max_allowed v"
  proof
    assume "c = length v"
    with c count_checked_in_box(2) [of v dsda_min_allowed dsda_max_allowed "length v"]
    show "in_box dsda_min_allowed dsda_max_allowed v"
      by (simp add: in_box_coord)
  next
    assume "in_box dsda_min_allowed dsda_max_allowed v"
    then have "\<forall>j \<in> set [0..<length v]. j < length v \<and> coord_ok dsda_min_allowed dsda_max_allowed v j"
      by (simp add: in_box_coord)
    from count_checked_all_ok [OF this, of 0] c show "c = length v" by simp
  qed
  with c show ?thesis by blast
qed

lemma line_search_step_result:
  assumes nb: "st_neighborhood s = Some nbh"
    and dir: "map_of nbh (st_best_dir s) = Some direction"
    and len: "length (add_direction (st_best_var s) direction) \<le> 2"
  shows "line_search_step f NT s = Inr
    (if in_box dsda_min_allowed dsda_max_allowed (add_direction (st_best_var s) direction) \<and>
        solved_status f NT (st_best_init s) (add_direction (st_best_var s) direction) = ok \<and>
        solved_obj f NT (st_best_init s) (add_direction (st_best_var s) direction) + tol_default
          < st_fmin s
     then s\<lparr> st_fmin := solved_obj f NT (st_best_init s) (add_direction (st_best_var s) direction),
             st_best_var := add_direction (st_best_var s) direction,
             st_best_init := solved_init f NT (st_best_init s) (add_direction (st_best_var s) direction),
             solver_log := solver_log s @ [add_direction (st_best_var s) direction],
             st_route := st_route s @ [add_direction (st_best_var s) direction],
             fmin_log := fmin_log s @
               [solved_obj f NT (st_best_init s) (add_direction (st_best_var s) direction)] \<rparr>
     else s\<lparr> solver_log := solver_log s @
               (if in_box dsda_min_allowed dsda_max_allowed (add_direction (st_best_var s) direction)
                then [add_direction (st_best_var s) direction] else []),
             st_ext_var := st_best_var s,
             st_phase := EXPLORE \<rparr>)"
proof -
  let ?p = "add_direction (st_best_var s) direction"
  from dsda_count_checked [OF len] obtain c where
    c: "count_checked ?p dsda_min_allowed dsda_max_allowed [0..<length ?p] 0 = Inr c"
    and cb: "c = length ?p \<longleftrightarrow> in_box dsda_min_allowed dsda_max_allowed ?p" by blast
  obtain ao st ni where r: "f NT ?p (Some (st_best_init s)) = (ao, st, ni)"
    by (cases "f NT ?p (Some (st_best_init s))")
  have so: "solved_obj f NT (st_best_init s) ?p = ao" "solved_status f NT (st_best_init s) ?p = st"
    "solved_init f NT (st_best_init s) ?p = ni"
    using r by (simp_all add: solved_obj_def solved_status_def solved_init_def)
  show ?thesis
  proof (cases "in_box dsda_min_allowed dsda_max_allowed ?p")
    case False
    with cb have "c \<noteq> length ?p" by simp
    with c have "move_and_evaluate f NT (st_best_var s) (st_best_init s) (st_fmin s) direction True
        dsda_min_allowed dsda_max_allowed tol_default =
        Inr ((st_fmin s, st_best_var s, False, st_best_init s), [])"
      by (simp add: move_and_evaluate_def Let_def)
    with nb dir False show ?thesis
      by (simp add: line_search_step_def)
  next
    case True
    with cb have ceq: "c = length ?p" by simp
    show ?thesis
    proof (cases "st = ok \<and> ao + tol_default < st_fmin s")
      case acc: True
      with c ceq r have "move_and_evaluate f NT (st_best_var s) (st_best_init s) (st_fmin s) direction True
        dsda_min_allowed dsda_max_allowed tol_default =
        Inr ((ao, ?p, True, ni), [?p])"
        by (simp add: move_and_evaluate_def Let_def)
      with nb dir True acc so show ?thesis
        by (simp add: line_search_step_def)
    next
      case rej: False
      with c ceq r have "move_and_evaluate f NT (st_best_var s) (st_best_init s) (st_fmin s) direction True
        dsda_min_allowed dsda_max_allowed tol_default =
        Inr ((st_fmin s, st_best_var s, False, st_best_init s), [?p])"
        by (auto simp: move_and_evaluate_def Let_def)
      with nb dir True rej so show ?thesis
        by (auto simp: line_search_step_def)
    qed
  qed
qed

section \<open>The invariant of the driver\<close>

lemma neighborhood_distinct: "distinct (map fst (neighborhood_k_eq_2 m))"
  unfolding neighborhood_keys by (simp add: distinct_map inj_on_def)

lemma neighborhood_no_key_0: "0 \<notin> fst ` set (neighborhood_k_eq_2 m)"
  by (auto simp: neighborhood_k_eq_2_def)

lemma neighborhood_direction_length:
  "(i, d) \<in> set (neighborhood_k_eq_2 m) \<Longrightarrow> length d = m"
  by (auto simp: neighborhood_k_eq_2_def)

lemma length_add_direction_eq:
  "length (add_direction start d) = min (length start) (length d)"
  by (simp add: add_direction_def)

lemma sorted_wrt_last_le:
  assumes "sorted_wrt (\<lambda>a b. b + tol_default < a) xs"
  shows "\<forall>y \<in> set xs. last xs \<le> y"
  using assms
proof (induction xs)
  case Nil
  then show ?case by simp
next
  case (Cons x xs)
  show ?case
  proof (cases "xs = []")
    case True
    then show ?thesis by simp
  next
    case False
    from Cons.prems have "last xs + tol_default < x" using False by simp
    from double_add_lessD [OF this tol_default_nonneg] have "last xs \<le> x" by simp
    with Cons False show ?thesis by simp
  qed
qed

lemma fmin_log_append:
  assumes s: "sorted_wrt (\<lambda>a b. b + tol_default < a) xs" and ne: "xs \<noteq> []"
    and lt: "fm + tol_default < last xs"
  shows "sorted_wrt (\<lambda>a b. b + tol_default < a) (xs @ [fm])"
proof -
  have "\<forall>y \<in> set xs. fm + tol_default < y"
    using sorted_wrt_last_le [OF s] lt by fastforce
  with s show ?thesis by (simp add: sorted_wrt_append)
qed

lemma explore_step_inv:
  assumes inv: "dsda_inv m s" and step: "explore_step f NT s = Inr s'"
  shows "dsda_inv m s'" and "st_fmin s' \<le> st_fmin s"
proof -
  from step obtain nbh where nb0: "st_neighborhood s = Some nbh"
    by (auto simp: explore_step_def split: option.splits)
  with inv have nb: "st_neighborhood s = Some (neighborhood_k_eq_2 m)"
    by (auto simp: dsda_inv_def)
  let ?nbh = "neighborhood_k_eq_2 m"
  from explore_step_result [OF step nb neighborhood_distinct neighborhood_no_key_0]
  obtain r fm bv bd bi imp where
    r: "my_neighbors (st_ext_var s) ?nbh True dsda_min_allowed dsda_max_allowed True = Inr r"
    and sc: "scan_inv f NT (st_init s) tol_default (st_fmin s) (st_ext_var s) (AList.delete 0 r)
      (fm, bv, bd, bi, imp)"
    and s': "s' = s\<lparr> st_store := (st_store s)(st_next_ref s := AList.delete 0 r),
            st_neighbors := st_next_ref s,
            st_next_ref := Suc (st_next_ref s),
            st_fmin := fm,
            st_best_var := bv,
            st_best_dir := bd,
            st_best_init := bi,
            solver_log := solver_log s @ map snd (AList.delete 0 r),
            st_route := (if imp then st_route s @ [bv] else st_route s),
            fmin_log := (if imp then fmin_log s @ [fm] else fmin_log s),
            st_phase := (if imp then LINE_SEARCH else DONE) \<rparr>"
    by blast
  note ent = my_neighbors_entries(2) [OF r neighborhood_distinct neighborhood_no_key_0]
  have sub: "set (AList.delete 0 r) \<subseteq> set r"
    by (auto simp: AList.delete_eq)
  have calls: "\<forall>v \<in> set (map snd (AList.delete 0 r)). in_box dsda_min_allowed dsda_max_allowed v"
    using ent sub by auto
  from inv have lenv: "length (st_ext_var s) = m"
    and log: "\<forall>v \<in> set (solver_log s). in_box dsda_min_allowed dsda_max_allowed v"
    and fl: "fmin_log s \<noteq> []" "last (fmin_log s) = st_fmin s"
       "sorted_wrt (\<lambda>a b. b + tol_default < a) (fmin_log s)"
       "length (fmin_log s) = length (st_route s)"
    by (simp_all add: dsda_inv_def)
  note tol = tol_default_nonneg
  show "st_fmin s' \<le> st_fmin s"
    using scan_inv_bound(1) [OF tol sc] by (simp add: s')
  show "dsda_inv m s'"
  proof (cases imp)
    case False
    with sc have "scan_inv f NT (st_init s) tol_default (st_fmin s) (st_ext_var s)
        (AList.delete 0 r) (fm, bv, bd, bi, False)" by simp
    then have "fm = st_fmin s" unfolding scan_inv_False by simp
    with False nb lenv log calls fl show ?thesis
      by (auto simp: dsda_inv_def s')
  next
    case True
    with sc have "scan_inv f NT (st_init s) tol_default (st_fmin s) (st_ext_var s)
        (AList.delete 0 r) (fm, bv, bd, bi, True)" by simp
    then obtain pre post where p: "AList.delete 0 r = pre @ (bd, bv) # post"
      and lt: "fm + tol_default < st_fmin s"
      unfolding scan_inv_True by blast
    from p have mem: "(bd, bv) \<in> set (AList.delete 0 r)" by simp
    then have bd0: "bd \<noteq> 0" by (auto simp: AList.delete_eq)
    from mem sub have "(bd, bv) \<in> set r" by blast
    with ent bd0 have box: "in_box dsda_min_allowed dsda_max_allowed bv"
      and len: "length bv = m" and key: "bd \<in> fst ` set ?nbh" and two: "2 \<le> length bv"
      using lenv by force+
    have srt: "sorted_wrt (\<lambda>a b. b + tol_default < a) (fmin_log s @ [fm])"
      using fmin_log_append [OF fl(3) fl(1)] lt fl(2) by simp
    from two len have m2: "2 \<le> m" by simp
    from True nb lenv log calls fl(4) box len key srt m2 show ?thesis
      by (auto simp: dsda_inv_def s')
  qed
qed

lemma line_search_step_inv:
  assumes inv: "dsda_inv m s" and ph: "st_phase s = LINE_SEARCH"
    and step: "line_search_step f NT s = Inr s'"
  shows "dsda_inv m s'" and "st_fmin s' \<le> st_fmin s"
proof -
  let ?nbh = "neighborhood_k_eq_2 m"
  from inv ph have nb: "st_neighborhood s = Some ?nbh"
    and box: "in_box dsda_min_allowed dsda_max_allowed (st_best_var s)"
    and len: "length (st_best_var s) = m"
    and key: "st_best_dir s \<in> fst ` set ?nbh"
    and two: "2 \<le> m"
    and lenv: "length (st_ext_var s) = m"
    and log: "\<forall>v \<in> set (solver_log s). in_box dsda_min_allowed dsda_max_allowed v"
    and fl: "fmin_log s \<noteq> []" "last (fmin_log s) = st_fmin s"
       "sorted_wrt (\<lambda>a b. b + tol_default < a) (fmin_log s)"
       "length (fmin_log s) = length (st_route s)"
    by (simp_all add: dsda_inv_def)
  from key obtain direction where dir: "map_of ?nbh (st_best_dir s) = Some direction"
    by (metis (no_types, opaque_lifting) domIff dom_map_of_conv_image_fst not_Some_eq)
  then have "(st_best_dir s, direction) \<in> set ?nbh" by (rule map_of_SomeD)
  then have dlen: "length direction = m" by (rule neighborhood_direction_length)
  let ?p = "add_direction (st_best_var s) direction"
  have plen: "length ?p = m" using len dlen by (simp add: length_add_direction_eq)
  have m2: "m \<le> 2"
  proof (rule ccontr)
    assume "\<not> m \<le> 2"
    then have "2 < length (st_best_var s)" using len by simp
    with box have "coord_ok dsda_min_allowed dsda_max_allowed (st_best_var s) 2"
      by (simp add: in_box_coord)
    then show False by (simp add: dsda_bounds_coord)
  qed
  note res = line_search_step_result [OF nb dir, of f NT]
  let ?acc = "in_box dsda_min_allowed dsda_max_allowed ?p \<and>
        solved_status f NT (st_best_init s) ?p = ok \<and>
        solved_obj f NT (st_best_init s) ?p + tol_default < st_fmin s"
  show "dsda_inv m s'"
  proof (cases ?acc)
    case True
    with res plen m2 step have s': "s' = s\<lparr> st_fmin := solved_obj f NT (st_best_init s) ?p,
             st_best_var := ?p,
             st_best_init := solved_init f NT (st_best_init s) ?p,
             solver_log := solver_log s @ [?p],
             st_route := st_route s @ [?p],
             fmin_log := fmin_log s @ [solved_obj f NT (st_best_init s) ?p] \<rparr>"
      by simp
    have srt: "sorted_wrt (\<lambda>a b. b + tol_default < a)
        (fmin_log s @ [solved_obj f NT (st_best_init s) ?p])"
      using fmin_log_append [OF fl(3) fl(1)] True fl(2) by simp
    from True nb lenv log fl(4) plen key srt ph two show ?thesis
      by (auto simp: dsda_inv_def s')
  next
    case False
    with res plen m2 step have s': "s' = s\<lparr> solver_log := solver_log s @
               (if in_box dsda_min_allowed dsda_max_allowed ?p then [?p] else []),
             st_ext_var := st_best_var s,
             st_phase := EXPLORE \<rparr>"
      by simp
    from nb len log fl show ?thesis
      by (auto simp: dsda_inv_def s')
  qed
  show "st_fmin s' \<le> st_fmin s"
  proof (cases ?acc)
    case True
    with res plen m2 step have "st_fmin s' = solved_obj f NT (st_best_init s) ?p"
      by auto
    moreover from True have "solved_obj f NT (st_best_init s) ?p + tol_default < st_fmin s"
      by simp
    from double_add_lessD [OF this tol_default_nonneg]
    have "solved_obj f NT (st_best_init s) ?p \<le> st_fmin s" by simp
    ultimately show ?thesis by simp
  next
    case False
    with res plen m2 step have "st_fmin s' = st_fmin s"
      by auto
    then show ?thesis by simp
  qed
qed

section \<open>Runs of the driver\<close>

lemma dsda_step_inv:
  assumes "dsda_inv m s" and "dsda_step f NT s = Inr s'"
  shows "dsda_inv m s'" and "st_fmin s' \<le> st_fmin s"
proof -
  have "dsda_inv m s' \<and> st_fmin s' \<le> st_fmin s"
  proof (cases "st_phase s")
    case EXPLORE
    with assms explore_step_inv [of m s f NT s'] show ?thesis
      by (simp add: dsda_step_def)
  next
    case LINE_SEARCH
    with assms line_search_step_inv [of m s f NT s'] show ?thesis
      by (simp add: dsda_step_def)
  next
    case DONE
    with assms show ?thesis by (simp add: dsda_step_def)
  qed
  then show "dsda_inv m s'" and "st_fmin s' \<le> st_fmin s" by simp_all
qed

lemma dsda_steps_inv:
  assumes "dsda_inv m s" and "dsda_steps f NT n s = Inr s'"
  shows "dsda_inv m s'" and "st_fmin s' \<le> st_fmin s"
proof -
  have "dsda_inv m s' \<and> st_fmin s' \<le> st_fmin s"
    using assms
  proof (induction n arbitrary: s)
    case 0
    then show ?case by simp
  next
    case (Suc n)
    from Suc.prems(2) obtain s1 where s1: "dsda_step f NT s = Inr s1"
      and rest: "dsda_steps f NT n s1 = Inr s'"
      by (auto split: sum.splits)
    from dsda_step_inv [OF Suc.prems(1) s1] have i1: "dsda_inv m s1" and f1: "st_fmin s1 \<le> st_fmin s"
      by simp_all
    from Suc.IH [OF i1 rest] f1 show ?case by (auto intro: order_trans)
  qed
  then show "dsda_inv m s'" and "st_fmin s' \<le> st_fmin s" by simp_all
qed

lemma dsda_init_inv:
  "dsda_inv (length (external_init NT)) (dsda_init f external_init NT k)"
  by (cases "f NT (external_init NT) None") (simp add: dsda_init_def dsda_inv_def Let_def)

lemma in_box_dsda:
  "in_box dsda_min_allowed dsda_max_allowed v \<longleftrightarrow>
     length v \<le> 2 \<and> (\<forall>p < length v. 1 \<le> v ! p \<and> v ! p \<le> 5)"
proof
  assume b: "in_box dsda_min_allowed dsda_max_allowed v"
  have "length v \<le> 2"
  proof (rule ccontr)
    assume "\<not> length v \<le> 2"
    then have "2 < length v" by simp
    with b have "coord_ok dsda_min_allowed dsda_max_allowed v 2" by (simp add: in_box_coord)
    then show False by (simp add: dsda_bounds_coord)
  qed
  with b show "length v \<le> 2 \<and> (\<forall>p < length v. 1 \<le> v ! p \<and> v ! p \<le> 5)"
    by (simp add: in_box_coord dsda_bounds_coord)
next
  assume "length v \<le> 2 \<and> (\<forall>p < length v. 1 \<le> v ! p \<and> v ! p \<le> 5)"
  then show "in_box dsda_min_allowed dsda_max_allowed v"
    by (auto simp: in_box_coord dsda_bounds_coord)
qed

text \<open>
  At every point of every run of the driver, whatever the solver, the start
  vector, \<open>NT\<close> and \<open>k\<close> are, every vector that has been passed to \<open>fnlp_gdp\<close>
  inside the loops (as an EXPLORE neighbor or as a LINE-SEARCH step) lies inside
  the box that \<open>dsda\<close> declares in its two calls, \<open>min_allowed = {1:1, 2:1}\<close> and
  \<open>max_allowed = {1:5, 2:5}\<close>: a vector outside this box is filtered out before
  any solve.
\<close>

lemma solver_calls_within_declared_box:
  assumes "dsda_steps f NT_global n (dsda_init f external_init NT k) = Inr s"
  shows "\<forall>v \<in> set (solver_log s).
           in_box dsda_min_allowed dsda_max_allowed v \<and>
           (\<forall>p < length v. 1 \<le> v ! p \<and> v ! p \<le> 5)"
proof -
  from dsda_steps_inv(1) [OF dsda_init_inv assms]
  have "\<forall>v \<in> set (solver_log s). in_box dsda_min_allowed dsda_max_allowed v"
    by (simp add: dsda_inv_def)
  then show ?thesis by (simp add: in_box_dsda)
qed

lemma neighborhood_Suc_Suc_0:
  "neighborhood_k_eq_2 (Suc (Suc 0)) = [(1, [1, 0]), (2, [0, 1]), (3, [-1, 0]), (4, [0, -1])]"
  using neighborhood_2 by (simp add: numeral_2_eq_2)

lemma example_state_0:
  "dsda_init example_solver example_init NT ''2'' =
     \<lparr> st_route = [[1, 1]], st_ext_var = [1, 1], st_init = (), st_fmin = int_double 4,
       st_neighborhood = Some [(1, [1, 0]), (2, [0, 1]), (3, [-1, 0]), (4, [0, -1])],
       st_store = (\<lambda>_. []), st_neighbors = 0, st_next_ref = 0,
       st_best_var = [1, 1], st_best_dir = 0, st_best_init = (), st_phase = EXPLORE,
       solver_log = [], fmin_log = [int_double 4] \<rparr>"
  by (simp add: dsda_init_def example_solver_values example_init_def neighborhood_Suc_Suc_0
      Let_def)

lemma example_my_neighbors_1_1:
  "my_neighbors [1, 1] [(1, [1, 0]), (2, [0, 1]), (3, [-1, 0]), (4, [0, -1])] True
      dsda_min_allowed dsda_max_allowed True = Inr [(0, [1, 1]), (1, [2, 1])]"
  by (simp add: my_neighbors_def add_direction_def keys_def upt_rec dsda_min_allowed_def
      dsda_max_allowed_def)

lemma example_step_1:
  "dsda_step example_solver NT
     \<lparr> st_route = [[1, 1]], st_ext_var = [1, 1], st_init = (), st_fmin = int_double 4,
       st_neighborhood = Some [(1, [1, 0]), (2, [0, 1]), (3, [-1, 0]), (4, [0, -1])],
       st_store = (\<lambda>_. []), st_neighbors = 0, st_next_ref = 0,
       st_best_var = [1, 1], st_best_dir = 0, st_best_init = (), st_phase = EXPLORE,
       solver_log = [], fmin_log = [int_double 4] \<rparr> =
   Inr \<lparr> st_route = [[1, 1], [2, 1]], st_ext_var = [1, 1], st_init = (), st_fmin = int_double 1,
       st_neighborhood = Some [(1, [1, 0]), (2, [0, 1]), (3, [-1, 0]), (4, [0, -1])],
       st_store = (\<lambda>_. [])(0 := [(1, [2, 1])]), st_neighbors = 0, st_next_ref = Suc 0,
       st_best_var = [2, 1], st_best_dir = 1, st_best_init = (), st_phase = LINE_SEARCH,
       solver_log = [[2, 1]], fmin_log = [int_double 4, int_double 1] \<rparr>"
  by (simp add: dsda_step_def explore_step_def example_my_neighbors_1_1 evaluate_neighbors_def
      keys_def example_solver_values int_double_add_tol_less)

lemma example_step_2:
  "dsda_step example_solver NT
     \<lparr> st_route = [[1, 1], [2, 1]], st_ext_var = [1, 1], st_init = (), st_fmin = int_double 1,
       st_neighborhood = Some [(1, [1, 0]), (2, [0, 1]), (3, [-1, 0]), (4, [0, -1])],
       st_store = (\<lambda>_. [])(0 := [(1, [2, 1])]), st_neighbors = 0, st_next_ref = Suc 0,
       st_best_var = [2, 1], st_best_dir = 1, st_best_init = (), st_phase = LINE_SEARCH,
       solver_log = [[2, 1]], fmin_log = [int_double 4, int_double 1] \<rparr> =
   Inr \<lparr> st_route = [[1, 1], [2, 1], [3, 1]], st_ext_var = [1, 1], st_init = (), st_fmin = int_double 0,
       st_neighborhood = Some [(1, [1, 0]), (2, [0, 1]), (3, [-1, 0]), (4, [0, -1])],
       st_store = (\<lambda>_. [])(0 := [(1, [2, 1])]), st_neighbors = 0, st_next_ref = Suc 0,
       st_best_var = [3, 1], st_best_dir = 1, st_best_init = (), st_phase = LINE_SEARCH,
       solver_log = [[2, 1], [3, 1]], fmin_log = [int_double 4, int_double 1, int_double 0] \<rparr>"
  by (simp add: dsda_step_def line_search_step_def move_and_evaluate_def add_direction_def
      upt_rec dsda_min_allowed_def dsda_max_allowed_def example_solver_values int_double_add_tol_less Let_def)

lemma example_step_3:
  "dsda_step example_solver NT
     \<lparr> st_route = [[1, 1], [2, 1], [3, 1]], st_ext_var = [1, 1], st_init = (), st_fmin = int_double 0,
       st_neighborhood = Some [(1, [1, 0]), (2, [0, 1]), (3, [-1, 0]), (4, [0, -1])],
       st_store = (\<lambda>_. [])(0 := [(1, [2, 1])]), st_neighbors = 0, st_next_ref = Suc 0,
       st_best_var = [3, 1], st_best_dir = 1, st_best_init = (), st_phase = LINE_SEARCH,
       solver_log = [[2, 1], [3, 1]], fmin_log = [int_double 4, int_double 1, int_double 0] \<rparr> =
   Inr \<lparr> st_route = [[1, 1], [2, 1], [3, 1]], st_ext_var = [3, 1], st_init = (), st_fmin = int_double 0,
       st_neighborhood = Some [(1, [1, 0]), (2, [0, 1]), (3, [-1, 0]), (4, [0, -1])],
       st_store = (\<lambda>_. [])(0 := [(1, [2, 1])]), st_neighbors = 0, st_next_ref = Suc 0,
       st_best_var = [3, 1], st_best_dir = 1, st_best_init = (), st_phase = EXPLORE,
       solver_log = [[2, 1], [3, 1], [4, 1]], fmin_log = [int_double 4, int_double 1, int_double 0] \<rparr>"
  by (simp add: dsda_step_def line_search_step_def move_and_evaluate_def add_direction_def
      upt_rec dsda_min_allowed_def dsda_max_allowed_def example_solver_values int_double_add_tol_less Let_def)

lemma example_run_3:
  "dsda_steps example_solver NT_global 3 (dsda_init example_solver example_init NT ''2'') =
   Inr \<lparr> st_route = [[1, 1], [2, 1], [3, 1]], st_ext_var = [3, 1], st_init = (), st_fmin = int_double 0,
       st_neighborhood = Some [(1, [1, 0]), (2, [0, 1]), (3, [-1, 0]), (4, [0, -1])],
       st_store = (\<lambda>_. [])(0 := [(1, [2, 1])]), st_neighbors = 0, st_next_ref = Suc 0,
       st_best_var = [3, 1], st_best_dir = 1, st_best_init = (), st_phase = EXPLORE,
       solver_log = [[2, 1], [3, 1], [4, 1]], fmin_log = [int_double 4, int_double 1, int_double 0] \<rparr>"
  by (simp add: numeral_3_eq_3 example_state_0 example_step_1 example_step_2 example_step_3)

lemma example_my_neighbors_3_1:
  "my_neighbors [3, 1] [(1, [1, 0]), (2, [0, 1]), (3, [-1, 0]), (4, [0, -1])] True
      dsda_min_allowed dsda_max_allowed True =
     Inr [(0, [3, 1]), (1, [4, 1]), (2, [3, 2]), (3, [2, 1])]"
  by (simp add: my_neighbors_def add_direction_def keys_def upt_rec dsda_min_allowed_def
      dsda_max_allowed_def)

text \<open>
  C2.  The claim does not hold of the code for \<open>NT\<close> other than 5: the bounds that
  \<open>dsda\<close> passes are the literals \<open>{1:1, 2:1}\<close> and \<open>{1:5, 2:5}\<close>, not \<open>[1, NT]\<close>.
  With \<open>NT = 3\<close> and the start vector \<open>[3, 1]\<close>, whatever the solver returns,
  the first pass of the outer loop returns normally and has passed the vectors
  \<open>[4, 1]\<close>, \<open>[3, 2]\<close>, \<open>[2, 1]\<close> to \<open>fnlp_gdp\<close>, in this order; \<open>[4, 1]\<close> is inside
  the literal box and outside \<open>[1, 3]\<close>.
\<close>

theorem dsda_solves_beyond_NT:
  "\<exists>s'. dsda_step f 3 (dsda_init f example_init_3_1 3 ''2'') = Inr s' \<and>
        solver_log s' = [[4, 1], [3, 2], [2, 1]] \<and>
        in_box dsda_min_allowed dsda_max_allowed [4, 1] \<and>
        \<not> in_box [1 \<mapsto> 1, 2 \<mapsto> 1] [1 \<mapsto> 3, 2 \<mapsto> 3] [4, 1]"
proof -
  obtain obj st ini where f0: "f 3 [3, 1] None = (obj, st, ini)"
    by (cases "f 3 [3, 1] None")
  let ?nbh = "[(1, [1, 0]), (2, [0, 1]), (3, [-1, 0]), (4, [0, -1])] :: vec dict"
  let ?r = "[(0, [3, 1]), (1, [4, 1]), (2, [3, 2]), (3, [2, 1])] :: vec dict"
  let ?d = "[(1, [4, 1]), (2, [3, 2]), (3, [2, 1])] :: vec dict"
  let ?h = "(\<lambda>_. [])(0 := ?r) :: store"
  let ?s0 = "dsda_init f example_init_3_1 3 ''2''"
  have s0: "st_phase ?s0 = EXPLORE" "st_neighborhood ?s0 = Some ?nbh" "st_ext_var ?s0 = [3, 1]"
    "st_store ?s0 = (\<lambda>_. [])" "st_next_ref ?s0 = 0" "st_init ?s0 = ini" "st_fmin ?s0 = obj"
    "solver_log ?s0 = []"
    by (simp_all add: dsda_init_def example_init_3_1_def f0 neighborhood_Suc_Suc_0 Let_def)
  have k0: "map_of (?h 0) 0 = Some [3, 1]" by simp
  have wf: "distinct (keys (?h 0))" by (simp add: keys_def)
  have del: "AList.delete 0 (?h 0) = ?d" by simp
  obtain fm bv bd bi imp where
    acc: "foldl (scan_step f 3 ini tol_default) (obj, [3, 1], 0, ini, False) ?d =
      (fm, bv, bd, bi, imp)"
    by (cases "foldl (scan_step f 3 ini tol_default) (obj, [3, 1], 0, ini, False) ?d")
  have ev: "evaluate_neighbors f 3 ?h 0 ini obj tol_default =
      Inr (?h(0 := ?d), (fm, bv, bd, bi, imp), [[4, 1], [3, 2], [2, 1]])"
    unfolding evaluate_neighbors_result [where h = "?h" and r = 0, OF k0 wf] del acc by simp
  have step: "\<exists>s'. explore_step f 3 ?s0 = Inr s' \<and> solver_log s' = [[4, 1], [3, 2], [2, 1]]"
    by (cases imp) (simp_all add: explore_step_def s0 example_my_neighbors_3_1 ev)
  have a: "in_box dsda_min_allowed dsda_max_allowed [4, 1]"
    by (simp add: in_box_def coord_ok_def dsda_min_allowed_def dsda_max_allowed_def upt_rec)
  have b: "\<not> in_box [1 \<mapsto> 1, 2 \<mapsto> 1] [1 \<mapsto> 3, 2 \<mapsto> 3] [4, 1]"
    by (simp add: in_box_def coord_ok_def upt_rec)
  from step a b show ?thesis by (simp add: dsda_step_def s0)
qed

lemma dsda_loop_steps_aux:
  assumes run: "dsda_loop f NT s = Some res"
  shows "\<forall>route. res = Inr route \<longrightarrow>
    (\<exists>n s'. dsda_steps f NT n s = Inr s' \<and> st_phase s' = DONE \<and> st_route s' = route)"
proof (rule dsda_loop.raw_induct [OF _ run])
  fix loop :: "'a solver \<Rightarrow> int \<Rightarrow> 'a dsda_state \<Rightarrow> (error + vec list) option"
  fix f NT s res
  assume ih: "\<And>f NT s res. loop f NT s = Some res \<Longrightarrow>
      \<forall>route. res = Inr route \<longrightarrow>
        (\<exists>n s'. dsda_steps f NT n s = Inr s' \<and> st_phase s' = DONE \<and> st_route s' = route)"
    and body: "(if st_phase s = DONE then Some (Inr (st_route s))
      else case dsda_step f NT s of Inl e \<Rightarrow> Some (Inl e)
           | Inr s' \<Rightarrow> loop f NT s') = Some res"
  show "\<forall>route. res = Inr route \<longrightarrow>
    (\<exists>n s'. dsda_steps f NT n s = Inr s' \<and> st_phase s' = DONE \<and> st_route s' = route)"
  proof (intro allI impI)
    fix route assume res: "res = Inr route"
    show "\<exists>n s'. dsda_steps f NT n s = Inr s' \<and> st_phase s' = DONE \<and> st_route s' = route"
    proof (cases "st_phase s = DONE")
      case True
      with body res have "st_route s = route" by simp
      with True have "dsda_steps f NT 0 s = Inr s \<and> st_phase s = DONE \<and> st_route s = route"
        by simp
      then show ?thesis by blast
    next
      case False
      with body res obtain s1 where s1: "dsda_step f NT s = Inr s1"
        and l: "loop f NT s1 = Some res"
        by (auto split: sum.splits)
      from ih [OF l] res obtain n s' where
        "dsda_steps f NT n s1 = Inr s'" "st_phase s' = DONE" "st_route s' = route" by blast
      with s1 have "dsda_steps f NT (Suc n) s = Inr s' \<and> st_phase s' = DONE \<and> st_route s' = route"
        by simp
      then show ?thesis by blast
    qed
  qed
qed

lemma dsda_loop_steps:
  "dsda_loop f NT s = Some (Inr route) \<Longrightarrow>
     \<exists>n s'. dsda_steps f NT n s = Inr s' \<and> st_phase s' = DONE \<and> st_route s' = route"
  using dsda_loop_steps_aux by blast

section \<open>Line search and monotonicity\<close>





text \<open>
  C6.  At every point of a run, one value of \<open>fmin\<close> has been recorded for each
  route entry, the last of them is the current \<open>fmin\<close>, each recorded value is
  below all the earlier ones by more than the tolerance, both in the float test
  \<open>b + tol < a\<close> of the code and over the reals (so the sequence is
  non-increasing), and no later step of the driver brings \<open>fmin\<close> above its
  current value.
\<close>

theorem fmin_never_increases:
  assumes run: "dsda_steps f NT_global n (dsda_init f external_init NT k) = Inr s"
  shows "length (fmin_log s) = length (st_route s) \<and>
         last (fmin_log s) = st_fmin s \<and>
         sorted_wrt (\<lambda>a b. b + tol_default < a) (fmin_log s) \<and>
         sorted_wrt (\<lambda>a b. val b < val a - val tol_default) (fmin_log s) \<and>
         sorted_wrt (\<lambda>a b. b \<le> a) (fmin_log s) \<and>
         (\<forall>j s'. dsda_steps f NT_global j s = Inr s' \<longrightarrow> st_fmin s' \<le> st_fmin s)"
proof -
  from dsda_steps_inv(1) [OF dsda_init_inv run]
  have inv: "dsda_inv (length (external_init NT)) s" .
  then have len: "length (fmin_log s) = length (st_route s)"
    and lst: "last (fmin_log s) = st_fmin s"
    and srt: "sorted_wrt (\<lambda>a b. b + tol_default < a) (fmin_log s)"
    by (simp_all add: dsda_inv_def)
  have s1: "sorted_wrt (\<lambda>a b. val b < val a - val tol_default) (fmin_log s)"
  proof (rule sorted_wrt_mono_rel [OF _ srt])
    fix a b :: double
    assume "b + tol_default < a"
    from double_add_less_exact [OF this] show "val b < val a - val tol_default" by simp
  qed
  have s2: "sorted_wrt (\<lambda>a b. b \<le> a) (fmin_log s)"
  proof (rule sorted_wrt_mono_rel [OF _ srt])
    fix a b :: double
    assume "b + tol_default < a"
    from double_add_lessD [OF this tol_default_nonneg] show "b \<le> a" by simp
  qed
  have later: "\<forall>j s'. dsda_steps f NT_global j s = Inr s' \<longrightarrow> st_fmin s' \<le> st_fmin s"
    using dsda_steps_inv(2) [OF inv] by blast
  from len lst srt s1 s2 later show ?thesis by blast
qed

theorem fmin_never_increases_witness:
  "fmin_log (projr (dsda_steps example_solver 5 3
       (dsda_init example_solver example_init 5 ''2''))) =
     [int_double 4, int_double 1, int_double 0] \<and>
   st_route (projr (dsda_steps example_solver 5 3
       (dsda_init example_solver example_init 5 ''2''))) = [[1, 1], [2, 1], [3, 1]] \<and>
   sorted_wrt (\<lambda>a b. val b < val a - val tol_default)
     [int_double 4, int_double 1, int_double 0] \<and>
   st_fmin (projr (dsda_steps example_solver 5 3
       (dsda_init example_solver example_init 5 ''2''))) = int_double 0"
  using fmin_never_increases [OF example_run_3 [of 5 5]]
  by (simp add: example_run_3)

section \<open>The scanner sorts the Booleans of an entry\<close>

lemma sorted_singletons: "sorted (xs :: int list) \<Longrightarrow> sorted (map (\<lambda>i. [i]) xs)"
  by (induction xs) (auto simp: less_le)

lemma scan_family_sorted:
  assumes "scan_family c role = Inr (Some en)"
  shows "sorted (map index_key (Boolean_vars_ordered_index en))"
proof -
  obtain pb ref other where role: "role = (pb, ref, other)" by (cases role)
  show ?thesis
  proof (cases "length other \<ge> 1")
    case True
    with assms role obtain sorted_args where
      s: "sort_by_ref_index (body_vars c) ref = Inr sorted_args"
      and en: "Boolean_vars_ordered_index en = map (Scalar \<circ> fst) sorted_args"
      by (auto simp: scan_family_def split: if_splits sum.splits)
    from s obtain ks where "sorted_args = sort_key fst (zip ks (body_vars c))"
      by (auto simp: sort_by_ref_index_def split: sum.splits)
    then have "sorted (map fst sorted_args)" by simp
    then have "sorted (map (\<lambda>i. [i]) (map fst sorted_args))" by (rule sorted_singletons)
    moreover have "map index_key (map (Scalar \<circ> fst) sorted_args) =
        map (\<lambda>i. [i]) (map fst sorted_args)"
      by (simp add: index_key_def)
    ultimately show ?thesis by (simp only: en)
  next
    case False
    with assms role obtain sorted_args where
      s: "sort_by_index (body_vars c) = Inr sorted_args"
      and en: "Boolean_vars_ordered_index en = map var_index sorted_args"
      by (auto simp: scan_family_def split: if_splits sum.splits)
    from s have "sorted_args = sort_key (\<lambda>a. index_key (var_index a)) (body_vars c)"
      by (auto simp: sort_by_index_def split: if_splits)
    then have "sorted (map (\<lambda>a. index_key (var_index a)) sorted_args)" by simp
    then show ?thesis by (simp add: en comp_def)
  qed
qed

lemma set_update_subset: "set (AList.update k v d) \<subseteq> insert (k, v) (set d)"
  by (induction d) auto

lemma scan_families_sorted:
  assumes "scan_families c roles (d, count) = Inr (d', count')"
    and "\<forall>e \<in> set d. sorted (map index_key (Boolean_vars_ordered_index (snd e)))"
  shows "\<forall>e \<in> set d'. sorted (map index_key (Boolean_vars_ordered_index (snd e)))"
  using assms
proof (induction roles arbitrary: d count)
  case Nil
  then show ?case by simp
next
  case (Cons role roles)
  from Cons.prems(1) obtain r where r: "scan_family c role = Inr r"
    by (auto split: sum.splits)
  show ?case
  proof (cases r)
    case None
    with Cons.prems(1) r have "scan_families c roles (d, count) = Inr (d', count')" by simp
    from Cons.IH [OF this Cons.prems(2)] show ?thesis .
  next
    case (Some en)
    with Cons.prems(1) r have
      rest: "scan_families c roles (AList.update count en d, count + 1) = Inr (d', count')"
      by simp
    from scan_family_sorted r Some
    have "sorted (map index_key (Boolean_vars_ordered_index en))" by blast
    with Cons.prems(2) set_update_subset [of count en d]
    have "\<forall>e \<in> set (AList.update count en d).
        sorted (map index_key (Boolean_vars_ordered_index (snd e)))" by auto
    from Cons.IH [OF rest this] show ?thesis .
  qed
qed

lemma scan_constraints_sorted:
  assumes "scan_constraints cs roles (d, count) = Inr (d', count')"
    and "\<forall>e \<in> set d. sorted (map index_key (Boolean_vars_ordered_index (snd e)))"
  shows "\<forall>e \<in> set d'. sorted (map index_key (Boolean_vars_ordered_index (snd e)))"
  using assms
proof (induction cs arbitrary: d count)
  case Nil
  then show ?case by simp
next
  case (Cons c cs)
  show ?case
  proof (cases "body_name c = ''exactly''")
    case False
    with Cons.prems(1) have "scan_constraints cs roles (d, count) = Inr (d', count')" by simp
    from Cons.IH [OF this Cons.prems(2)] show ?thesis .
  next
    case True
    with Cons.prems(1) obtain d1 c1 where
      f: "scan_families c roles (d, count) = Inr (d1, c1)"
      and rest: "scan_constraints cs roles (d1, c1) = Inr (d', count')"
      by (auto split: sum.splits)
    from Cons.IH [OF rest scan_families_sorted [OF f Cons.prems(2)]] show ?thesis .
  qed
qed

lemma all_or_error_zip:
  "all_or_error (map f xs) = Inr ys \<Longrightarrow>
     length ys = length xs \<and> (\<forall>p \<in> set (zip ys xs). f (snd p) = Inr (fst p))"
proof (induction xs arbitrary: ys)
  case Nil
  then show ?case by simp
next
  case (Cons a xs)
  from Cons.prems obtain y ys' where y: "f a = Inr y" and r: "all_or_error (map f xs) = Inr ys'"
    and ys: "ys = y # ys'"
    by (auto split: sum.splits)
  from Cons.IH [OF r] y ys show ?case by auto
qed

lemma count_list_insort_key_map:
  "count_list (map g (insort_key f x xs)) y = count_list (map g (x # xs)) y"
  by (induction xs) auto

lemma count_list_sort_key_map:
  "count_list (map g (sort_key f xs)) y = count_list (map g xs) y"
  by (induction xs) (simp_all add: count_list_insort_key_map)

lemma count_list_sort_key: "count_list (sort_key f xs) y = count_list xs y"
  using count_list_sort_key_map [of "\<lambda>x. x" f xs y] by simp

lemma scan_family_entry:
  assumes "scan_family c role = Inr (Some en)"
  shows "entry_of c role en"
proof -
  obtain pb ref other where role: "role = (pb, ref, other)" by (cases role)
  from assms role have comp: "list_all (\<lambda>a. var_component a = comp_name pb) (body_vars c)"
    by (auto simp: scan_family_def split: if_splits)
  show ?thesis
  proof (cases "length other \<ge> 1")
    case False
    with assms role obtain sorted_args where
      s: "sort_by_index (body_vars c) = Inr sorted_args"
      and en: "en = \<lparr> exactly_number = body_number c,
                      Boolean_vars = sorted_args,
                      Boolean_vars_names = map var_name sorted_args,
                      Boolean_vars_ordered_index = map var_index sorted_args,
                      Ext_var_lower_bound = 1,
                      Ext_var_upper_bound = int (length sorted_args) \<rparr>"
      by (auto simp: scan_family_def split: if_splits sum.splits)
    from s have sa: "sorted_args = sort_key (\<lambda>a. index_key (var_index a)) (body_vars c)"
      by (auto simp: sort_by_index_def split: if_splits)
    have al: "list_all2 (is_reference_index ref other) sorted_args (map var_index sorted_args)"
      using False by (simp add: list_all2_map2 list_all2_same is_reference_index_def)
    show ?thesis
      unfolding entry_of_def role using comp al
      by (simp add: en sa count_list_sort_key list_all_iff)
  next
    case True
    with assms role obtain sorted_args where
      s: "sort_by_ref_index (body_vars c) ref = Inr sorted_args"
      and en: "en = \<lparr> exactly_number = body_number c,
                      Boolean_vars = map snd sorted_args,
                      Boolean_vars_names = map (var_name \<circ> snd) sorted_args,
                      Boolean_vars_ordered_index = map (Scalar \<circ> fst) sorted_args,
                      Ext_var_lower_bound = 1,
                      Ext_var_upper_bound = int (length sorted_args) \<rparr>"
      by (auto simp: scan_family_def split: if_splits sum.splits)
    let ?f = "\<lambda>a. case ref of [] \<Rightarrow> Inl IndexError | r # _ \<Rightarrow> subscript (var_index a) r"
    from s obtain ks where ks: "all_or_error (map ?f (body_vars c)) = Inr ks"
      and sa: "sorted_args = sort_key fst (zip ks (body_vars c))"
      by (auto simp: sort_by_ref_index_def split: sum.splits)
    from all_or_error_zip [OF ks]
    have len: "length ks = length (body_vars c)"
      and pairs: "\<forall>p \<in> set (zip ks (body_vars c)). ?f (snd p) = Inr (fst p)" by simp_all
    have mem: "set sorted_args = set (zip ks (body_vars c))" by (simp add: sa)
    have l: "length sorted_args = length (body_vars c)" by (simp add: sa len)
    have cnt: "count_list (map snd sorted_args) a = count_list (body_vars c) a" for a
      unfolding sa count_list_sort_key_map using len by simp
    have "\<forall>p \<in> set sorted_args. is_reference_index ref other (snd p) (Scalar (fst p))"
    proof
      fix p assume "p \<in> set sorted_args"
      with mem pairs have p: "?f (snd p) = Inr (fst p)" by blast
      then obtain r rs where "ref = r # rs" by (cases ref) auto
      with p True show "is_reference_index ref other (snd p) (Scalar (fst p))"
        by (simp add: is_reference_index_def)
    qed
    then have al: "list_all2 (is_reference_index ref other) (map snd sorted_args)
        (map (Scalar \<circ> fst) sorted_args)"
      by (simp add: list_all2_map1 list_all2_map2 list_all2_same)
    show ?thesis
      unfolding entry_of_def role using comp al l cnt
      by (simp add: en list_all_iff)
  qed
qed

lemma scan_families_all:
  assumes "scan_families c roles (d, count) = Inr (d', count')"
    and "\<forall>e \<in> set d. Q (snd e)"
    and "\<forall>role \<in> set roles. \<forall>en. scan_family c role = Inr (Some en) \<longrightarrow> Q en"
  shows "\<forall>e \<in> set d'. Q (snd e)"
  using assms
proof (induction roles arbitrary: d count)
  case Nil
  then show ?case by simp
next
  case (Cons role roles)
  from Cons.prems(1) obtain r where r: "scan_family c role = Inr r"
    by (auto split: sum.splits)
  from Cons.prems(3) have rest3:
    "\<forall>role \<in> set roles. \<forall>en. scan_family c role = Inr (Some en) \<longrightarrow> Q en" by simp
  show ?case
  proof (cases r)
    case None
    with Cons.prems(1) r have "scan_families c roles (d, count) = Inr (d', count')" by simp
    from Cons.IH [OF this Cons.prems(2) rest3] show ?thesis .
  next
    case (Some en)
    with Cons.prems(1) r have
      rest: "scan_families c roles (AList.update count en d, count + 1) = Inr (d', count')"
      by simp
    from Cons.prems(3) r Some have "Q en" by simp
    with Cons.prems(2) set_update_subset [of count en d]
    have "\<forall>e \<in> set (AList.update count en d). Q (snd e)" by auto
    from Cons.IH [OF rest this rest3] show ?thesis .
  qed
qed

lemma scan_constraints_all:
  assumes "scan_constraints cs roles (d, count) = Inr (d', count')"
    and "\<forall>e \<in> set d. Q (snd e)"
    and "\<forall>c \<in> set cs. body_name c = ''exactly'' \<longrightarrow>
           (\<forall>role \<in> set roles. \<forall>en. scan_family c role = Inr (Some en) \<longrightarrow> Q en)"
  shows "\<forall>e \<in> set d'. Q (snd e)"
  using assms
proof (induction cs arbitrary: d count)
  case Nil
  then show ?case by simp
next
  case (Cons c cs)
  from Cons.prems(3) have rest3: "\<forall>c \<in> set cs. body_name c = ''exactly'' \<longrightarrow>
           (\<forall>role \<in> set roles. \<forall>en. scan_family c role = Inr (Some en) \<longrightarrow> Q en)" by simp
  show ?case
  proof (cases "body_name c = ''exactly''")
    case False
    with Cons.prems(1) have "scan_constraints cs roles (d, count) = Inr (d', count')" by simp
    from Cons.IH [OF this Cons.prems(2) rest3] show ?thesis .
  next
    case True
    with Cons.prems(1) obtain d1 c1 where
      f: "scan_families c roles (d, count) = Inr (d1, c1)"
      and rest: "scan_constraints cs roles (d1, c1) = Inr (d', count')"
      by (auto split: sum.splits)
    from Cons.prems(3) True
    have "\<forall>role \<in> set roles. \<forall>en. scan_family c role = Inr (Some en) \<longrightarrow> Q en" by simp
    from Cons.IH [OF rest scan_families_all [OF f Cons.prems(2) this] rest3] show ?thesis .
  qed
qed

lemma get_external_information_entries:
  assumes "get_external_information m Ext_Ref = Inr (d, nv, lb, ub)"
  shows "\<forall>e \<in> set d. \<exists>c \<in> set m. \<exists>role \<in> set (index_roles Ext_Ref).
           body_name c = ''exactly'' \<and> entry_of c role (snd e)"
proof -
  from assms obtain count where
    sc: "scan_constraints m (index_roles Ext_Ref) ([], 1) = Inr (d, count)"
    by (auto simp: get_external_information_def split: sum.splits)
  let ?Q = "\<lambda>en. \<exists>c \<in> set m. \<exists>role \<in> set (index_roles Ext_Ref).
           body_name c = ''exactly'' \<and> entry_of c role en"
  have "\<forall>e \<in> set d. ?Q (snd e)"
  proof (rule scan_constraints_all [OF sc])
    show "\<forall>e \<in> set []. ?Q (snd e)" by simp
    show "\<forall>c \<in> set m. body_name c = ''exactly'' \<longrightarrow>
           (\<forall>role \<in> set (index_roles Ext_Ref). \<forall>en. scan_family c role = Inr (Some en) \<longrightarrow> ?Q en)"
      using scan_family_entry by blast
  qed
  then show ?thesis .
qed

lemma get_external_information_sorted:
  assumes "get_external_information m Ext_Ref = Inr (d, nv, lb, ub)"
  shows "\<forall>e \<in> set d. sorted (map index_key (Boolean_vars_ordered_index (snd e)))"
proof -
  from assms obtain count where
    "scan_constraints m (index_roles Ext_Ref) ([], 1) = Inr (d, count)"
    by (auto simp: get_external_information_def split: sum.splits)
  from scan_constraints_sorted [OF this] show ?thesis by simp
qed

text \<open>
  C9.  Every entry of the reformulation dict that the scanner returns comes
  from an \<open>exactly\<close> constraint of the model and a component of \<open>Ext_Ref\<close>: its
  Boolean variables are the arguments of the constraint, rearranged;
  \<open>Boolean_vars_ordered_index\<close> holds at each position the reference index of
  the Boolean stored at that position (its value on the reference dimension in
  the branch with other index dimensions, its whole index in the
  single-dimension branch); and this sequence is non-decreasing (integers in
  their order, tuples lexicographically).  So the Booleans are stored sorted
  ascending by their reference index.
\<close>

theorem ordered_index_values_sorted:
  assumes "get_external_information m Ext_Ref =
             Inr (reformulation_dict, number_of_external_variables, lower_bounds, upper_bounds)"
  shows "\<forall>e \<in> set reformulation_dict.
           sorted (map index_key (Boolean_vars_ordered_index (snd e))) \<and>
           (\<exists>c \<in> set m. \<exists>role \<in> set (index_roles Ext_Ref).
              body_name c = ''exactly'' \<and> entry_of c role (snd e))"
proof -
  from get_external_information_sorted [OF assms] get_external_information_entries [OF assms]
  show ?thesis by blast
qed

lemma example_roles_Z:
  "index_roles example_Ext_Ref_Z =
     [(\<lparr> comp_name = ''Z'', comp_index_set = SetProduct ''Z_index'' [''K'', ''J''] \<rparr>, [0], [1])]"
  by (simp add: index_roles_def example_Ext_Ref_Z_def try_roles_def)


lemma example_scan_Z:
  "get_external_information example_model_Z example_Ext_Ref_Z =
     Inr ([(1, \<lparr> exactly_number = 1,
                  Boolean_vars = [example_Z 1 7, example_Z 2 7, example_Z 3 7],
                  Boolean_vars_names = [''Z'', ''Z'', ''Z''],
                  Boolean_vars_ordered_index = [Scalar 1, Scalar 2, Scalar 3],
                  Ext_var_lower_bound = 1,
                  Ext_var_upper_bound = 3 \<rparr>)], 1, [1], [3])"
  by (simp add: get_external_information_def example_roles_Z example_model_Z_def
      scan_family_def example_Z_def subscript_def sort_by_ref_index_def)


lemma example_scan_dict_Z:
  "get_external_information example_model_Z example_Ext_Ref_Z =
     Inr (example_dict_Z, 1, [1], [3])"
  by (simp add: example_scan_Z example_dict_Z_def)

theorem ordered_index_values_sorted_witness:
  "get_external_information example_model_Z example_Ext_Ref_Z =
     Inr (example_dict_Z, 1, [1], [3]) \<and>
   body_vars (example_model_Z ! 0) = [example_Z 3 7, example_Z 1 7, example_Z 2 7] \<and>
   Boolean_vars (snd (example_dict_Z ! 0)) = [example_Z 1 7, example_Z 2 7, example_Z 3 7] \<and>
   Boolean_vars_ordered_index (snd (example_dict_Z ! 0)) = [Scalar 1, Scalar 2, Scalar 3] \<and>
   sorted (map index_key (Boolean_vars_ordered_index (snd (example_dict_Z ! 0)))) \<and>
   entry_of (example_model_Z ! 0) (index_roles example_Ext_Ref_Z ! 0) (snd (example_dict_Z ! 0))"
proof -
  have e: "example_dict_Z ! 0 \<in> set example_dict_Z" by (simp add: example_dict_Z_def)
  have m: "set example_model_Z = {example_model_Z ! 0}" by (simp add: example_model_Z_def)
  have r: "set (index_roles example_Ext_Ref_Z) = {index_roles example_Ext_Ref_Z ! 0}"
    by (simp add: example_roles_Z)
  from ordered_index_values_sorted [OF example_scan_dict_Z] e
  have "sorted (map index_key (Boolean_vars_ordered_index (snd (example_dict_Z ! 0)))) \<and>
        (\<exists>c \<in> set example_model_Z. \<exists>role \<in> set (index_roles example_Ext_Ref_Z).
              body_name c = ''exactly'' \<and> entry_of c role (snd (example_dict_Z ! 0)))"
    by blast
  then have "sorted (map index_key (Boolean_vars_ordered_index (snd (example_dict_Z ! 0)))) \<and>
        entry_of (example_model_Z ! 0) (index_roles example_Ext_Ref_Z ! 0)
          (snd (example_dict_Z ! 0))"
    unfolding m r by simp
  moreover have "body_vars (example_model_Z ! 0) = [example_Z 3 7, example_Z 1 7, example_Z 2 7]"
    by (simp add: example_model_Z_def)
  moreover have "Boolean_vars (snd (example_dict_Z ! 0)) =
      [example_Z 1 7, example_Z 2 7, example_Z 3 7]"
    and "Boolean_vars_ordered_index (snd (example_dict_Z ! 0)) = [Scalar 1, Scalar 2, Scalar 3]"
    by (simp_all add: example_dict_Z_def)
  ultimately show ?thesis using example_scan_dict_Z by simp
qed

section \<open>The effect of \<open>external_ref\<close>\<close>
























section \<open>Round trip from the external vector to the fixed Booleans\<close>









section \<open>The fixing of the small batch model\<close>

lemma small_batch_ext_var_result:
  assumes "p + length js \<le> length x" and "distinct js"
  shows "\<exists>ev. small_batch_ext_var js x p ext_var = Inr ev \<and>
           (\<forall>q < length js. ev (js ! q) = Some (x ! (p + q)))"
  using assms
proof (induction js arbitrary: p ext_var)
  case Nil
  then show ?case by simp
next
  case (Cons j js)
  from Cons.prems have p: "p < length x" and rest: "(p + 1) + length js \<le> length x"
    and d: "distinct js" and nj: "j \<notin> set js" by simp_all
  from Cons.IH [OF rest d, of "ext_var(j \<mapsto> x ! p)"] obtain ev where
    ev: "small_batch_ext_var js x (p + 1) (ext_var(j \<mapsto> x ! p)) = Inr ev"
    and q: "\<forall>q < length js. ev (js ! q) = Some (x ! (p + 1 + q))" by blast
  have keep: "ev j = Some (x ! p)"
  proof -
    have "\<And>p e. j \<notin> set js \<Longrightarrow> small_batch_ext_var js x p e = Inr ev \<Longrightarrow> ev j = e j"
    proof (induction js)
      case Nil
      then show ?case by simp
    next
      case (Cons a js)
      then show ?case by (auto split: if_splits)
    qed
    from this [OF nj ev] show ?thesis by simp
  qed
  have "\<forall>q < length (j # js). ev ((j # js) ! q) = Some (x ! (p + q))"
  proof (intro allI impI)
    fix q assume "q < length (j # js)"
    then show "ev ((j # js) ! q) = Some (x ! (p + q))"
      using keep q by (cases q) auto
  qed
  with ev p show ?case by simp
qed

lemma small_batch_fix_j_result:
  assumes "\<forall>j \<in> set js. ev j \<noteq> None"
  shows "\<exists>m'. small_batch_fix_j k js ev m = Inr m' \<and>
     (\<forall>c. Y m' c = (if fst c = k \<and> snd c \<in> set js then Some (ev (snd c) = Some k) else Y m c))"
  using assms
proof (induction js arbitrary: m)
  case Nil
  then show ?case by simp
next
  case (Cons j js)
  from Cons.prems obtain v where v: "ev j = Some v" and rest: "\<forall>j \<in> set js. ev j \<noteq> None"
    by auto
  let ?m1 = "if k = v
             then m\<lparr> Y := (Y m)((k, j) := Some True),
                     Y_exists := (Y_exists m)((k, j) := Some True),
                     Y_not_exists := (Y_not_exists m)((k, j) := Some False) \<rparr>
             else m\<lparr> Y := (Y m)((k, j) := Some False),
                     Y_exists := (Y_exists m)((k, j) := Some False),
                     Y_not_exists := (Y_not_exists m)((k, j) := Some True) \<rparr>"
  from Cons.IH [OF rest, of ?m1] obtain m' where
    m': "small_batch_fix_j k js ev ?m1 = Inr m'"
    and y: "\<forall>c. Y m' c = (if fst c = k \<and> snd c \<in> set js then Some (ev (snd c) = Some k) else Y ?m1 c)"
    by blast
  have "\<forall>c. Y m' c = (if fst c = k \<and> snd c \<in> set (j # js) then Some (ev (snd c) = Some k) else Y m c)"
  proof
    fix c
    show "Y m' c = (if fst c = k \<and> snd c \<in> set (j # js) then Some (ev (snd c) = Some k) else Y m c)"
      using y [rule_format, of c] v by (cases c) auto
  qed
  with m' v show ?case by simp
qed

lemma small_batch_fix_k_result:
  assumes "\<forall>j \<in> set js. ev j \<noteq> None"
  shows "\<exists>m'. small_batch_fix_k ks js ev m = Inr m' \<and>
     (\<forall>c. Y m' c = (if fst c \<in> set ks \<and> snd c \<in> set js then Some (ev (snd c) = Some (fst c))
                     else Y m c))"
proof (induction ks arbitrary: m)
  case Nil
  then show ?case by simp
next
  case (Cons k ks)
  from small_batch_fix_j_result [OF assms, of k m] obtain m1 where
    m1: "small_batch_fix_j k js ev m = Inr m1"
    and y1: "\<forall>c. Y m1 c = (if fst c = k \<and> snd c \<in> set js then Some (ev (snd c) = Some k) else Y m c)"
    by blast
  from Cons.IH [of m1] obtain m' where
    m': "small_batch_fix_k ks js ev m1 = Inr m'"
    and y: "\<forall>c. Y m' c = (if fst c \<in> set ks \<and> snd c \<in> set js
                            then Some (ev (snd c) = Some (fst c)) else Y m1 c)"
    by blast
  have "\<forall>c. Y m' c = (if fst c \<in> set (k # ks) \<and> snd c \<in> set js
                        then Some (ev (snd c) = Some (fst c)) else Y m c)"
  proof
    fix c
    show "Y m' c = (if fst c \<in> set (k # ks) \<and> snd c \<in> set js
                        then Some (ev (snd c) = Some (fst c)) else Y m c)"
      using y [rule_format, of c] y1 [rule_format, of c] by auto
  qed
  with m1 m' show ?case by simp
qed

text \<open>
  The hand-written \<open>external_ref\<close> of the small batch model: for the stage at
  position \<open>p\<close> of \<open>m.j\<close> and every \<open>k\<close> of \<open>m.k\<close>, the loops fix \<open>Y[k, j]\<close> \<open>True\<close>
  when \<open>k = x[p]\<close> and \<open>False\<close> otherwise, whatever was fixed before; the model
  with these fixings goes through the three transformations.
\<close>

lemma small_batch_external_ref_selects:
  assumes "length mj \<le> length x" and "distinct mj"
  shows "\<exists>m'. small_batch_fix_Booleans mk mj m x = Inr m' \<and>
     (\<forall>p < length mj. \<forall>k \<in> set mk. Y m' (k, mj ! p) = Some (k = x ! p)) \<and>
     small_batch_external_ref logical_to_linear fix_disjuncts deactivate_trivial_constraints
         mk mj m x =
       (case logical_to_linear m' of
          Inl e \<Rightarrow> Inl e
        | Inr m2 \<Rightarrow>
            (case fix_disjuncts m2 of
               Inl e \<Rightarrow> Inl e
             | Inr m3 \<Rightarrow> deactivate_trivial_constraints m3))"
proof -
  from assms have "0 + length mj \<le> length x" by simp
  from small_batch_ext_var_result [OF this assms(2), of Map.empty] obtain ev where
    ev: "small_batch_ext_var mj x 0 Map.empty = Inr ev"
    and q: "\<forall>q < length mj. ev (mj ! q) = Some (x ! q)" by auto
  have "\<forall>j \<in> set mj. ev j \<noteq> None"
    using q by (auto simp: in_set_conv_nth)
  from small_batch_fix_k_result [OF this, of mk m] obtain m' where
    m': "small_batch_fix_k mk mj ev m = Inr m'"
    and y: "\<forall>c. Y m' c = (if fst c \<in> set mk \<and> snd c \<in> set mj
                            then Some (ev (snd c) = Some (fst c)) else Y m c)"
    by blast
  have "\<forall>p < length mj. \<forall>k \<in> set mk. Y m' (k, mj ! p) = Some (k = x ! p)"
  proof (intro allI impI ballI)
    fix p k assume p: "p < length mj" and k: "k \<in> set mk"
    from y [rule_format, of "(k, mj ! p)"] p k q
    show "Y m' (k, mj ! p) = Some (k = x ! p)" by auto
  qed
  with ev m' show ?thesis
    by (simp add: small_batch_external_ref_def small_batch_fix_Booleans_def)
qed

section \<open>The driver's dict after \<open>evaluate_neighbors\<close>\<close>

text \<open>
  In the driver the dict bound to \<open>neighbors\<close> is the one that \<open>my_neighbors\<close>
  returned, with the incumbent under key 0; after the call of
  \<open>evaluate_neighbors\<close> the same dict has lost key 0.
\<close>

lemma explore_step_pops_key_0:
  assumes run: "dsda_steps f NT_global n (dsda_init f external_init NT k) = Inr s"
    and step: "explore_step f NT_global s = Inr s'"
  shows "\<exists>new_neighbors.
    my_neighbors (st_ext_var s) (neighborhood_k_eq_2 (length (external_init NT))) True
      dsda_min_allowed dsda_max_allowed True = Inr new_neighbors \<and>
    map_of new_neighbors 0 = Some (st_ext_var s) \<and>
    st_store s' (st_neighbors s') = AList.delete 0 new_neighbors"
proof -
  let ?m = "length (external_init NT)"
  from dsda_steps_inv(1) [OF dsda_init_inv run] have inv: "dsda_inv ?m s" .
  from step obtain nbh where "st_neighborhood s = Some nbh"
    by (auto simp: explore_step_def split: option.splits)
  with inv have nb: "st_neighborhood s = Some (neighborhood_k_eq_2 ?m)"
    by (auto simp: dsda_inv_def)
  from explore_step_result [OF step nb neighborhood_distinct neighborhood_no_key_0]
  obtain r fm bv bd bi imp where
    r: "my_neighbors (st_ext_var s) (neighborhood_k_eq_2 ?m) True
          dsda_min_allowed dsda_max_allowed True = Inr r"
    and k0: "map_of r 0 = Some (st_ext_var s)"
    and s': "s' = s\<lparr> st_store := (st_store s)(st_next_ref s := AList.delete 0 r),
            st_neighbors := st_next_ref s,
            st_next_ref := Suc (st_next_ref s),
            st_fmin := fm,
            st_best_var := bv,
            st_best_dir := bd,
            st_best_init := bi,
            solver_log := solver_log s @ map snd (AList.delete 0 r),
            st_route := (if imp then st_route s @ [bv] else st_route s),
            fmin_log := (if imp then fmin_log s @ [fm] else fmin_log s),
            st_phase := (if imp then LINE_SEARCH else DONE) \<rparr>"
    by blast
  have "st_store s' (st_neighbors s') = AList.delete 0 r"
    by (simp add: s')
  with r k0 show ?thesis by blast
qed

section \<open>Termination of the driver\<close>

text \<open>
  Every run of \<open>dsda\<close> leaves its loops, with the route or with an exception,
  whatever the solver is.  An EXPLORE pass that does not stop lowers \<open>fmin\<close> to
  one of the finitely many objective values of the box; a LINE-SEARCH pass
  never raises \<open>fmin\<close> and either moves one step further along its direction
  inside the box or hands over to EXPLORE.
\<close>

lemma finite_box_vectors: "finite box_vectors"
proof -
  have "box_vectors \<subseteq> {v. set v \<subseteq> {1..5} \<and> length v \<le> 2}"
  proof
    fix v assume "v \<in> box_vectors"
    then have b: "length v \<le> 2" "\<forall>p < length v. 1 \<le> v ! p \<and> v ! p \<le> 5"
      by (simp_all add: box_vectors_def in_box_dsda)
    from b(2) have "set v \<subseteq> {1..5}" by (auto simp: in_set_conv_nth)
    with b(1) show "v \<in> {v. set v \<subseteq> {1..5} \<and> length v \<le> 2}" by simp
  qed
  moreover have "finite {v :: int list. set v \<subseteq> {1..5} \<and> length v \<le> 2}"
    by (rule finite_lists_length_le) simp
  ultimately show ?thesis by (rule finite_subset)
qed

lemma finite_explore_values: "finite (explore_values f NT init)"
  unfolding explore_values_def using finite_box_vectors by (rule finite_imageI)

lemma improvements_left_mono:
  assumes "st_init s' = st_init s" and "st_fmin s' \<le> st_fmin s"
  shows "improvements_left f NT s' \<le> improvements_left f NT s"
proof -
  have "{y \<in> explore_values f NT (st_init s'). y < st_fmin s'} \<subseteq>
      {y \<in> explore_values f NT (st_init s). y < st_fmin s}"
    using assms by auto
  moreover have "finite {y \<in> explore_values f NT (st_init s). y < st_fmin s}"
    by (simp add: finite_explore_values)
  ultimately show ?thesis
    unfolding improvements_left_def by (rule card_mono [rotated])
qed

lemma improvements_left_less:
  assumes "st_init s' = st_init s" and "st_fmin s' < st_fmin s"
    and "st_fmin s' \<in> explore_values f NT (st_init s)"
  shows "improvements_left f NT s' < improvements_left f NT s"
proof -
  have "{y \<in> explore_values f NT (st_init s'). y < st_fmin s'} \<subset>
      {y \<in> explore_values f NT (st_init s). y < st_fmin s}"
    using assms by auto
  moreover have "finite {y \<in> explore_values f NT (st_init s). y < st_fmin s}"
    by (simp add: finite_explore_values)
  ultimately show ?thesis
    unfolding improvements_left_def by (rule psubset_card_mono [rotated])
qed

lemma explore_step_improves:
  assumes inv: "dsda_inv m s" and step: "explore_step f NT s = Inr s'"
    and ph': "st_phase s' \<noteq> DONE"
  shows "st_init s' = st_init s" and "st_fmin s' < st_fmin s"
    and "st_fmin s' \<in> explore_values f NT (st_init s)"
proof -
  from step obtain nbh where nb0: "st_neighborhood s = Some nbh"
    by (auto simp: explore_step_def split: option.splits)
  with inv have nb: "st_neighborhood s = Some (neighborhood_k_eq_2 m)"
    by (auto simp: dsda_inv_def)
  let ?nbh = "neighborhood_k_eq_2 m"
  from explore_step_result [OF step nb neighborhood_distinct neighborhood_no_key_0]
  obtain r fm bv bd bi imp where
    r: "my_neighbors (st_ext_var s) ?nbh True dsda_min_allowed dsda_max_allowed True = Inr r"
    and sc: "scan_inv f NT (st_init s) tol_default (st_fmin s) (st_ext_var s) (AList.delete 0 r)
      (fm, bv, bd, bi, imp)"
    and s': "s' = s\<lparr> st_store := (st_store s)(st_next_ref s := AList.delete 0 r),
            st_neighbors := st_next_ref s,
            st_next_ref := Suc (st_next_ref s),
            st_fmin := fm,
            st_best_var := bv,
            st_best_dir := bd,
            st_best_init := bi,
            solver_log := solver_log s @ map snd (AList.delete 0 r),
            st_route := (if imp then st_route s @ [bv] else st_route s),
            fmin_log := (if imp then fmin_log s @ [fm] else fmin_log s),
            st_phase := (if imp then LINE_SEARCH else DONE) \<rparr>"
    by blast
  from ph' s' have imp: imp by (cases imp) simp_all
  with sc have "scan_inv f NT (st_init s) tol_default (st_fmin s) (st_ext_var s)
      (AList.delete 0 r) (fm, bv, bd, bi, True)" by simp
  then obtain pre post where p: "AList.delete 0 r = pre @ (bd, bv) # post"
    and obj: "solved_obj f NT (st_init s) bv = fm"
    and lt: "fm + tol_default < st_fmin s"
    unfolding scan_inv_True by blast
  note ent = my_neighbors_entries(2) [OF r neighborhood_distinct neighborhood_no_key_0]
  from p have "(bd, bv) \<in> set (AList.delete 0 r)" by simp
  then have "(bd, bv) \<in> set r" by (auto simp: AList.delete_eq)
  with ent have "in_box dsda_min_allowed dsda_max_allowed bv" by force
  then have "bv \<in> box_vectors" by (simp add: box_vectors_def)
  with obj have "fm \<in> explore_values f NT (st_init s)"
    unfolding explore_values_def by blast
  moreover from double_add_lessD [OF lt tol_default_nonneg] have "fm < st_fmin s" .
  ultimately show "st_init s' = st_init s" and "st_fmin s' < st_fmin s"
    and "st_fmin s' \<in> explore_values f NT (st_init s)"
    by (simp_all add: s')
qed

lemma line_search_step_progress:
  assumes inv: "dsda_inv m s" and ph: "st_phase s = LINE_SEARCH"
    and step: "line_search_step f NT s = Inr s'"
  shows "st_init s' = st_init s" and "st_fmin s' \<le> st_fmin s"
    and "st_phase s' = EXPLORE \<or> (st_phase s' = LINE_SEARCH \<and> moves_left s' < moves_left s)"
proof -
  from inv ph have nbm: "st_neighborhood s = Some (neighborhood_k_eq_2 m)"
    and box: "in_box dsda_min_allowed dsda_max_allowed (st_best_var s)"
    and len: "length (st_best_var s) = m"
    and key: "st_best_dir s \<in> fst ` set (neighborhood_k_eq_2 m)"
    and two: "2 \<le> m"
    by (simp_all add: dsda_inv_def)
  from box len two have m: "m = 2" by (simp add: in_box_dsda)
  let ?nbh = "[(1, [1, 0]), (2, [0, 1]), (3, [-1, 0]), (4, [0, -1 :: int])] :: vec dict"
  from nbm m have nb: "st_neighborhood s = Some ?nbh" by (simp add: neighborhood_2)
  from key m have dirs: "st_best_dir s = 1 \<or> st_best_dir s = 2 \<or> st_best_dir s = 3 \<or>
      st_best_dir s = 4"
    by (auto simp: neighborhood_2)
  from len m obtain a b where v: "st_best_var s = [a, b]"
    by (cases "st_best_var s"; cases "tl (st_best_var s)") auto
  from box v have q: "\<forall>p < 2. 1 \<le> [a, b] ! p \<and> [a, b] ! p \<le> 5"
    by (simp add: in_box_dsda)
  from q [rule_format, of 0] q [rule_format, of 1]
  have ab: "1 \<le> a" "a \<le> 5" "1 \<le> b" "b \<le> 5"
    by simp_all
  from dirs obtain direction where dir: "map_of ?nbh (st_best_dir s) = Some direction"
    and dcases: "direction = [1, 0] \<or> direction = [0, 1] \<or> direction = [-1, 0] \<or>
      direction = [0, -1]"
    and dkey: "(st_best_dir s = 1 \<and> direction = [1, 0]) \<or>
      (st_best_dir s = 2 \<and> direction = [0, 1]) \<or>
      (st_best_dir s = 3 \<and> direction = [-1, 0]) \<or>
      (st_best_dir s = 4 \<and> direction = [0, -1])"
    by auto
  let ?p = "add_direction (st_best_var s) direction"
  from dcases v have plen: "length ?p \<le> 2" by (auto simp: add_direction_def)
  note res = line_search_step_result [OF nb dir plen, of f NT]
  let ?acc = "in_box dsda_min_allowed dsda_max_allowed ?p \<and>
        solved_status f NT (st_best_init s) ?p = ok \<and>
        solved_obj f NT (st_best_init s) ?p + tol_default < st_fmin s"
  have all: "st_init s' = st_init s \<and> st_fmin s' \<le> st_fmin s \<and>
    (st_phase s' = EXPLORE \<or> (st_phase s' = LINE_SEARCH \<and> moves_left s' < moves_left s))"
  proof (cases ?acc)
    case False
    with res step have s': "s' = s\<lparr> solver_log := solver_log s @
               (if in_box dsda_min_allowed dsda_max_allowed ?p then [?p] else []),
             st_ext_var := st_best_var s,
             st_phase := EXPLORE \<rparr>"
      by simp
    then show ?thesis by simp
  next
    case True
    with res step have s': "s' = s\<lparr> st_fmin := solved_obj f NT (st_best_init s) ?p,
             st_best_var := ?p,
             st_best_init := solved_init f NT (st_best_init s) ?p,
             solver_log := solver_log s @ [?p],
             st_route := st_route s @ [?p],
             fmin_log := fmin_log s @ [solved_obj f NT (st_best_init s) ?p] \<rparr>"
      by simp
    from True have pbox: "in_box dsda_min_allowed dsda_max_allowed ?p" by simp
    have ml: "moves_left s' < moves_left s"
      using dkey
    proof (elim disjE conjE)
      assume d: "st_best_dir s = 1" "direction = [1, 0]"
      then show ?thesis
        using ab by (simp add: moves_left_def s' nb v add_direction_def)
    next
      assume d: "st_best_dir s = 2" "direction = [0, 1]"
      then show ?thesis
        using ab by (simp add: moves_left_def s' nb v add_direction_def)
    next
      assume d: "st_best_dir s = 3" "direction = [-1, 0]"
      then show ?thesis
        using ab by (simp add: moves_left_def s' nb v add_direction_def)
    next
      assume d: "st_best_dir s = 4" "direction = [0, -1]"
      then show ?thesis
        using ab by (simp add: moves_left_def s' nb v add_direction_def)
    qed
    from True have "solved_obj f NT (st_best_init s) ?p + tol_default < st_fmin s" by simp
    from double_add_lessD [OF this tol_default_nonneg]
    have "solved_obj f NT (st_best_init s) ?p \<le> st_fmin s" by simp
    with ml ph show ?thesis by (simp add: s')
  qed
  then show "st_init s' = st_init s" and "st_fmin s' \<le> st_fmin s"
    and "st_phase s' = EXPLORE \<or> (st_phase s' = LINE_SEARCH \<and> moves_left s' < moves_left s)"
    by simp_all
qed

lemma dsda_step_decreases:
  assumes inv: "dsda_inv m s" and ph: "st_phase s \<noteq> DONE"
    and step: "dsda_step f NT s = Inr s'"
  shows "st_phase s' = DONE \<or>
    (s', s) \<in> inv_image (less_than <*lex*> less_than)
      (\<lambda>s. (improvements_left f NT s, rank s))"
proof (cases "st_phase s")
  case EXPLORE
  with step have ex: "explore_step f NT s = Inr s'" by (simp add: dsda_step_def)
  show ?thesis
  proof (cases "st_phase s' = DONE")
    case True
    then show ?thesis by simp
  next
    case False
    note imp = explore_step_improves [OF inv ex False]
    from improvements_left_less [OF imp(1) imp(2) imp(3)]
    show ?thesis by simp
  qed
next
  case LINE_SEARCH
  with step have ls: "line_search_step f NT s = Inr s'" by (simp add: dsda_step_def)
  note pr = line_search_step_progress [OF inv LINE_SEARCH ls]
  from improvements_left_mono [OF pr(1) pr(2)]
  have le: "improvements_left f NT s' \<le> improvements_left f NT s" .
  from pr(3) LINE_SEARCH have "rank s' < rank s"
    by (auto simp: rank_def)
  with le show ?thesis by auto
next
  case DONE
  with ph show ?thesis by simp
qed

lemma dsda_loop_terminates:
  assumes "dsda_inv m s"
  shows "\<exists>res. dsda_loop f NT s = Some res"
proof -
  let ?R = "inv_image (less_than <*lex*> less_than)
      (\<lambda>s. (improvements_left f NT s, rank s))"
  have wf: "wf ?R" by (intro wf_inv_image wf_lex_prod wf_less_than)
  from wf assms show ?thesis
  proof (induction s rule: wf_induct_rule)
    case (less s)
    show ?case
    proof (cases "st_phase s = DONE")
      case True
      then show ?thesis by (subst dsda_loop.simps) simp
    next
      case False
      show ?thesis
      proof (cases "dsda_step f NT s")
        case (Inl e)
        with False show ?thesis by (subst dsda_loop.simps) simp
      next
        case (Inr s1)
        from dsda_step_inv(1) [OF less.prems Inr] have inv1: "dsda_inv m s1" .
        from dsda_step_decreases [OF less.prems False Inr]
        have "st_phase s1 = DONE \<or> (s1, s) \<in> ?R" .
        then have "\<exists>res. dsda_loop f NT s1 = Some res"
        proof
          assume "st_phase s1 = DONE"
          then show ?thesis by (subst dsda_loop.simps) simp
        next
          assume "(s1, s) \<in> ?R"
          from less.IH [OF this inv1] show ?thesis .
        qed
        with False Inr show ?thesis by (subst dsda_loop.simps) simp
      qed
    qed
  qed
qed

lemma dsda_terminates: "\<exists>res. dsda f external_init NT_global NT k = Some res"
  unfolding dsda_def using dsda_init_inv by (rule dsda_loop_terminates)

end
